theory Spec2Isabelle
  imports Complex_Main "HOL-Library.Word" "HOL-Library.Sublist" "HOL-Library.AList"
begin

section \<open>Strings of the source language\<close>

text \<open>
  A JavaScript string is a sequence of UTF-16 code units and \<open>length\<close> counts code
  units. The chunker inspects single code units (sentence terminators, white space), so
  the text it works on is a list of 16-bit words.
\<close>

type_synonym jsstring = "16 word list"

definition period :: "16 word" where "period = 0x2E"
definition exclamation :: "16 word" where "exclamation = 0x21"
definition question :: "16 word" where "question = 0x3F"

text \<open>
  The code units \<open>String.prototype.trim\<close> removes: the WhiteSpace and LineTerminator
  productions of ECMAScript.
\<close>

definition is_ws :: "16 word \<Rightarrow> bool" where
  "is_ws c \<longleftrightarrow>
     c = 0x09 \<or> c = 0x0A \<or> c = 0x0B \<or> c = 0x0C \<or> c = 0x0D \<or> c = 0x20 \<or>
     c = 0xA0 \<or> c = 0x1680 \<or> (0x2000 \<le> c \<and> c \<le> 0x200A) \<or>
     c = 0x2028 \<or> c = 0x2029 \<or> c = 0x202F \<or> c = 0x205F \<or> c = 0x3000 \<or>
     c = 0xFEFF"

definition trim :: "jsstring \<Rightarrow> jsstring" where
  "trim s = rev (dropWhile is_ws (rev (dropWhile is_ws s)))"

text \<open>
  \<open>s.slice(a, b)\<close>: a negative index counts from the end, both indices are clamped
  to the string, and an empty range gives the empty string.
\<close>

definition slice :: "'a list \<Rightarrow> int \<Rightarrow> int \<Rightarrow> 'a list" where
  "slice s a b =
     (let n = int (length s);
          from = (if a < 0 then max (n + a) 0 else min a n);
          to = (if b < 0 then max (n + b) 0 else min b n)
      in take (nat (to - from)) (drop (nat from) s))"

text \<open>
  \<open>s.lastIndexOf(c, fromIndex)\<close> for a one-unit search string: the search starts at
  \<open>min (max fromIndex 0) (length s - 1)\<close> and walks down to index 0; the result is the
  first index found, or \<open>-1\<close>.
\<close>

fun scan_down :: "'a list \<Rightarrow> 'a \<Rightarrow> nat \<Rightarrow> int" where
  "scan_down s c 0 = (if s ! 0 = c then 0 else - 1)"
| "scan_down s c (Suc k) = (if s ! Suc k = c then int (Suc k) else scan_down s c k)"

definition lastIndexOf :: "'a list \<Rightarrow> 'a \<Rightarrow> int \<Rightarrow> int" where
  "lastIndexOf s c fromIndex =
     (if s = [] then - 1
      else scan_down s c (min (nat (max fromIndex 0)) (length s - 1)))"

section \<open>The chunker (ingest.js, chunkText)\<close>

definition maxChunks :: nat where "maxChunks = 30"

definition lastSentenceEnd :: "jsstring \<Rightarrow> int \<Rightarrow> int" where
  "lastSentenceEnd text e =
     max (max (lastIndexOf text period e) (lastIndexOf text exclamation e))
         (lastIndexOf text question e)"

text \<open>
  The end of the window that starts at \<open>i\<close> (lines 38 to 51). The source compares
  \<open>lastSentenceEnd > i + maxChars * 0.7\<close> in double arithmetic; the model compares
  \<open>10 * lastSentenceEnd > 10 * i + 7 * maxChars\<close> over the integers. For the default
  \<open>maxChars = 1500\<close> the double product \<open>1500 * 0.7\<close> is exactly \<open>1050\<close>, so the two
  comparisons agree there.
\<close>

definition chunk_end :: "jsstring \<Rightarrow> int \<Rightarrow> int \<Rightarrow> int" where
  "chunk_end text maxChars i =
     (let e = min (int (length text)) (i + maxChars)
      in if e < int (length text)
         then (let l = lastSentenceEnd text e
               in if 10 * l > 10 * i + 7 * maxChars then l + 1 else e)
         else e)"

text \<open>
  The \<open>while\<close> loop of lines 37 to 62; its state is the cursor \<open>i\<close>, the iteration
  counter \<open>chunkCount\<close> and the chunks pushed so far.
\<close>

function chunk_loop ::
  "jsstring \<Rightarrow> int \<Rightarrow> int \<Rightarrow> int \<Rightarrow> nat \<Rightarrow> jsstring list \<Rightarrow> jsstring list" where
  "chunk_loop text maxChars overlap i chunkCount chunks =
     (if i < int (length text) \<and> chunkCount < maxChunks
      then (let e = chunk_end text maxChars i;
                chunk = trim (slice text i e);
                chunks' = (if 100 < length chunk then chunks @ [chunk] else chunks);
                i' = (if e - overlap < 0 then 0 else e - overlap)
            in chunk_loop text maxChars overlap i' (Suc chunkCount) chunks')
      else chunks)"
  by pat_completeness auto
termination
  by (relation "measure (\<lambda>(text, maxChars, overlap, i, chunkCount, chunks). maxChunks - chunkCount)")
     auto

declare chunk_loop.simps [simp del]

definition chunkText_with :: "jsstring \<Rightarrow> int \<Rightarrow> int \<Rightarrow> jsstring list" where
  "chunkText_with text maxChars overlap =
     filter (\<lambda>c. c \<noteq> []) (chunk_loop text maxChars overlap 0 0 [])"

text \<open>\<open>chunkText(text)\<close> with the default parameters \<open>maxChars = 1500\<close>, \<open>overlap = 150\<close>.\<close>

definition chunkText :: "jsstring \<Rightarrow> jsstring list" where
  "chunkText text = chunkText_with text 1500 150"

text \<open>
  A text of 1600 code units without white space: 1500 letters \<open>a\<close>, a period at index
  1500, and 99 more letters.
\<close>

definition long_text :: jsstring where
  "long_text = replicate 1500 0x61 @ period # replicate 99 0x61"

section \<open>Errors and the retry wrapper (gemini.js, retryWithBackoff)\<close>

text \<open>
  A thrown error, as far as the code looks at it: \<open>error.status\<close>,
  \<open>error.response.status\<close> and \<open>error.message\<close>, each possibly undefined.
\<close>

record js_error =
  status :: "int option"
  response_status :: "int option"
  err_message :: "string option"

definition Error :: "string \<Rightarrow> js_error" where
  "Error m = \<lparr>status = None, response_status = None, err_message = Some m\<rparr>"

definition TypeError :: "string \<Rightarrow> js_error" where
  "TypeError m = \<lparr>status = None, response_status = None, err_message = Some m\<rparr>"

text \<open>A call that returns normally yields a value or \<open>undefined\<close>.\<close>

datatype 'a js_value = Value 'a | Undefined

text \<open>
  Lower case of an ASCII letter. A regular expression with the \<open>i\<close> flag and without the
  \<open>u\<close> flag lets an ASCII letter of the pattern match only the two ASCII letters of
  either case, so folding the subject string with this function is exact for the
  all-ASCII patterns of the source.
\<close>

definition ascii_lower :: "char \<Rightarrow> char" where
  "ascii_lower c =
     (case map_of (zip ''ABCDEFGHIJKLMNOPQRSTUVWXYZ'' ''abcdefghijklmnopqrstuvwxyz'') c of
        Some l \<Rightarrow> l
      | None \<Rightarrow> c)"

text \<open>\<open>/overload|quota|rate|exceed/i.test(msg)\<close>\<close>

definition overload_pattern :: "string \<Rightarrow> bool" where
  "overload_pattern msg =
     (let m = map ascii_lower msg
      in sublist ''overload'' m \<or> sublist ''quota'' m \<or> sublist ''rate'' m \<or>
         sublist ''exceed'' m)"

text \<open>The classification of gemini.js, lines 21 to 29; it cannot throw.\<close>

definition transient :: "js_error \<Rightarrow> bool" where
  "transient error =
     (let st = (case status error of Some s \<Rightarrow> Some s | None \<Rightarrow> response_status error);
          msg = (case err_message error of Some m \<Rightarrow> m | None \<Rightarrow> [])
      in st = Some 503 \<or> st = Some 502 \<or> st = Some 500 \<or> st = Some 504 \<or>
         st = Some 429 \<or> overload_pattern msg)"

text \<open>
  The classification of the older copy of the file (src/unnamed/part_002, line 22):
  \<open>error.status === 503 || error.message.includes('overloaded')\<close>. Reading
  \<open>includes\<close> of an undefined message throws a TypeError out of the \<open>catch\<close> block.
\<close>

definition transient_v1 :: "js_error \<Rightarrow> js_error + bool" where
  "transient_v1 error =
     (if status error = Some 503 then Inr True
      else (case err_message error of
              None \<Rightarrow> Inl (TypeError ''Cannot read properties of undefined'')
            | Some m \<Rightarrow> Inr (sublist ''overloaded'' m)))"

text \<open>
  What one run of the wrapper did: how it completed, how often the wrapped operation
  was invoked, and the delays it waited, in order.
\<close>

record 'a retry_run =
  outcome :: "js_error + 'a js_value"
  invocations :: nat
  delays :: "int list"

text \<open>
  The \<open>for\<close> loop of \<open>retryWithBackoff\<close>. The wrapped operation has effects, so it is
  given by the outcome of each of its invocations: \<open>fn k\<close> is what the invocation
  number \<open>k\<close> (counted from 0) does, throwing (\<open>Inl\<close>) or returning (\<open>Inr\<close>). The
  loop is shared by both copies of the file, which differ in \<open>classify\<close>.
\<close>

function retry_loop ::
  "(js_error \<Rightarrow> js_error + bool) \<Rightarrow> (nat \<Rightarrow> js_error + 'a) \<Rightarrow> int \<Rightarrow> int \<Rightarrow> int \<Rightarrow>
     nat \<Rightarrow> int list \<Rightarrow> 'a retry_run" where
  "retry_loop classify fn maxRetries baseDelay i calls waited =
     (if i < maxRetries
      then (case fn calls of
              Inr v \<Rightarrow> \<lparr>outcome = Inr (Value v), invocations = Suc calls, delays = waited\<rparr>
            | Inl error \<Rightarrow>
                if i = maxRetries - 1
                then \<lparr>outcome = Inl error, invocations = Suc calls, delays = waited\<rparr>
                else (case classify error of
                        Inl thrown \<Rightarrow>
                          \<lparr>outcome = Inl thrown, invocations = Suc calls, delays = waited\<rparr>
                      | Inr True \<Rightarrow>
                          retry_loop classify fn maxRetries baseDelay (i + 1) (Suc calls)
                            (waited @ [baseDelay * 2 ^ nat i])
                      | Inr False \<Rightarrow>
                          \<lparr>outcome = Inl error, invocations = Suc calls, delays = waited\<rparr>))
      else \<lparr>outcome = Inr Undefined, invocations = calls, delays = waited\<rparr>)"
  by pat_completeness auto
termination
  by (relation "measure (\<lambda>(classify, fn, maxRetries, baseDelay, i, calls, waited).
        nat (maxRetries - i))") auto

declare retry_loop.simps [simp del]

definition retry_with ::
  "(js_error \<Rightarrow> js_error + bool) \<Rightarrow> (nat \<Rightarrow> js_error + 'a) \<Rightarrow> int \<Rightarrow> int \<Rightarrow> 'a retry_run" where
  "retry_with classify fn maxRetries baseDelay =
     retry_loop classify fn maxRetries baseDelay 0 0 []"

text \<open>\<open>retryWithBackoff\<close> of gemini.js and of the older copy.\<close>

definition retryWithBackoff :: "(nat \<Rightarrow> js_error + 'a) \<Rightarrow> int \<Rightarrow> int \<Rightarrow> 'a retry_run" where
  "retryWithBackoff fn maxRetries baseDelay =
     retry_with (\<lambda>error. Inr (transient error)) fn maxRetries baseDelay"

definition retryWithBackoff_v1 :: "(nat \<Rightarrow> js_error + 'a) \<Rightarrow> int \<Rightarrow> int \<Rightarrow> 'a retry_run" where
  "retryWithBackoff_v1 fn maxRetries baseDelay =
     retry_with transient_v1 fn maxRetries baseDelay"

text \<open>Two errors an upstream call can throw: a 503 of an overloaded service, a 401.\<close>

definition service_overloaded :: js_error where
  "service_overloaded =
     \<lparr>status = Some 503, response_status = None, err_message = Some ''The model is overloaded''\<rparr>"

definition unauthorized :: js_error where
  "unauthorized =
     \<lparr>status = Some 401, response_status = None, err_message = Some ''API key not valid''\<rparr>"

section \<open>Retrieval filter and citations (rag.js, handleChat, lines 24 to 62)\<close>

text \<open>
  A search result is \<open>{ score, ...payload }\<close> with the payload \<open>{ url, title, text }\<close>
  written at ingestion; a citation is \<open>{ title, url, score }\<close>. A score is a JSON
  number, hence a finite double, hence a rational. The field \<open>text\<close> of a search
  result is \<open>ctext\<close> here, and the fields of a context document carry the prefix
  \<open>doc\<close>.
\<close>

record citation =
  title :: string
  url :: string
  score :: rat

record candidate = citation +
  ctext :: string

record contextDoc =
  doc_title :: string
  doc_text :: string
  doc_url :: string

text \<open>The double that the literal \<open>0.6\<close> denotes.\<close>

definition minScore :: rat where
  "minScore = 5404319552844595 / 9007199254740992"

definition filteredResults :: "candidate list \<Rightarrow> candidate list" where
  "filteredResults searchResults = filter (\<lambda>result. score result \<ge> minScore) searchResults"

definition finalResults :: "candidate list \<Rightarrow> candidate list" where
  "finalResults searchResults =
     (if length (filteredResults searchResults) > 0 then filteredResults searchResults
      else slice searchResults 0 3)"

definition contextDocs :: "candidate list \<Rightarrow> contextDoc list" where
  "contextDocs results =
     map (\<lambda>result. \<lparr>doc_title = title result, doc_text = ctext result, doc_url = url result\<rparr>)
       results"

text \<open>
  \<open>citationsMap\<close> is a \<open>Map\<close>: an association list in insertion order, where setting an
  existing key replaces its value in place and setting a new key appends
  (\<open>AList.update\<close>).
\<close>

definition add_citation :: "(string \<times> citation) list \<Rightarrow> candidate \<Rightarrow> (string \<times> citation) list" where
  "add_citation citationsMap result =
     (let key = url result;
          entry = \<lparr>title = title result, url = url result, score = score result\<rparr>
      in case map_of citationsMap key of
           None \<Rightarrow> AList.update key entry citationsMap
         | Some existing \<Rightarrow>
             if score result > score existing then AList.update key entry citationsMap
             else citationsMap)"

definition citations_of :: "candidate list \<Rightarrow> citation list" where
  "citations_of results = map snd (foldl add_citation [] results)"

text \<open>The candidates of the spec's scenarios B and C.\<close>

definition cand :: "rat \<Rightarrow> string \<Rightarrow> candidate" where
  "cand s u = \<lparr>title = u, url = u, score = s, ctext = []\<rparr>"

definition scenario_B :: "candidate list" where
  "scenario_B = [cand (9 / 10) ''a'', cand (55 / 100) ''b'', cand (3 / 10) ''c'']"

definition scenario_C :: "candidate list" where
  "scenario_C =
     [cand (5 / 10) ''a'', cand (4 / 10) ''b'', cand (3 / 10) ''c'', cand (2 / 10) ''d'',
      cand (1 / 10) ''e'']"

text \<open>Three chunks of two articles, the second chunk of \<open>a\<close> scoring higher than the first.\<close>

definition repeated_source :: "candidate list" where
  "repeated_source = [cand (7 / 10) ''a'', cand (8 / 10) ''b'', cand (9 / 10) ''a'']"

section \<open>JSON values\<close>

text \<open>
  The values \<open>JSON.parse\<close> can return. A number is kept as an integer: the only
  numbers this program stores are the time stamps of \<open>Date.now()\<close>. An object is its
  list of properties, in insertion order, with unique keys.
\<close>

datatype json =
  JNull | JBool bool | JNum int | JStr string | JArr "json list" | JObj "(string \<times> json) list"

text \<open>\<open>Boolean(v)\<close>, the predicate of \<open>filter(Boolean)\<close>.\<close>

fun truthy :: "json \<Rightarrow> bool" where
  "truthy JNull = False"
| "truthy (JBool b) = b"
| "truthy (JNum n) = (n \<noteq> 0)"
| "truthy (JStr s) = (s \<noteq> [])"
| "truthy (JArr xs) = True"
| "truthy (JObj props) = True"

text \<open>
  Reading the property \<open>k\<close> of a value, for the keys the program reads (\<open>role\<close>,
  \<open>content\<close>): \<open>None\<close> is \<open>undefined\<close>; reading a property of \<open>null\<close> throws.
\<close>

definition get_prop :: "json \<Rightarrow> string \<Rightarrow> js_error + json option" where
  "get_prop v k =
     (case v of
        JNull \<Rightarrow> Inl (TypeError ''Cannot read properties of null'')
      | JObj props \<Rightarrow> Inr (map_of props k)
      | _ \<Rightarrow> Inr None)"

subsection \<open>Conversion to strings\<close>

definition nl :: string where
  "nl = [char_of (10 :: nat)]"

fun join :: "string \<Rightarrow> string list \<Rightarrow> string" where
  "join sep [] = []"
| "join sep [x] = x"
| "join sep (x # y # ys) = x @ sep @ join sep (y # ys)"

definition digit :: "nat \<Rightarrow> char" where
  "digit d = ''0123456789'' ! d"

fun show_nat :: "nat \<Rightarrow> string" where
  "show_nat n = (if n < 10 then [digit n] else show_nat (n div 10) @ [digit (n mod 10)])"

declare show_nat.simps [simp del]

definition show_int :: "int \<Rightarrow> string" where
  "show_int i = (if i < 0 then CHR ''-'' # show_nat (nat (- i)) else show_nat (nat i))"

text \<open>
  \<open>String(v)\<close>, the conversion a template literal applies; integers below \<open>10 ^ 21\<close>
  in absolute value print in decimal. An array prints its elements separated by commas,
  \<open>null\<close> elements as the empty string.
\<close>

fun to_string :: "json \<Rightarrow> string" where
  "to_string JNull = ''null''"
| "to_string (JBool b) = (if b then ''true'' else ''false'')"
| "to_string (JNum n) = show_int n"
| "to_string (JStr s) = s"
| "to_string (JArr xs) = join '','' (map (\<lambda>x. if x = JNull then [] else to_string x) xs)"
| "to_string (JObj props) = ''[object Object]''"

definition display :: "json option \<Rightarrow> string" where
  "display v = (case v of None \<Rightarrow> ''undefined'' | Some x \<Rightarrow> to_string x)"

text \<open>
  \<open>toUpperCase\<close> on the letters \<open>a\<close> to \<open>z\<close>; the roles this program writes are
  \<open>user\<close> and \<open>assistant\<close>.
\<close>

definition ascii_upper :: "char \<Rightarrow> char" where
  "ascii_upper c =
     (case map_of (zip ''abcdefghijklmnopqrstuvwxyz'' ''ABCDEFGHIJKLMNOPQRSTUVWXYZ'') c of
        Some u \<Rightarrow> u
      | None \<Rightarrow> c)"

definition toUpperCase :: "string \<Rightarrow> string" where
  "toUpperCase s = map ascii_upper s"

section \<open>The session store (redis.js)\<close>

text \<open>
  The configuration read from the environment: whether \<open>REDIS_URL\<close> is set, and the
  time to live.
\<close>

record config =
  has_redis :: bool
  TTL_SECONDS :: nat

text \<open>
  The state behind the module: the lists and expiry times held by the Redis server, and
  the two module-level maps \<open>mem\<close> and \<open>timers\<close>. An element of a Redis list is a
  string, and the only thing the program does with it is \<open>JSON.parse\<close>; it is
  represented by the result of that: \<open>Some v\<close> for a string that parses to \<open>v\<close> (as
  \<open>JSON.stringify v\<close> does), \<open>None\<close> for a string that \<open>JSON.parse\<close> rejects. A
  pending timer is represented by its delay in milliseconds.
\<close>

record store =
  redis :: "string \<rightharpoonup> json option list"
  redis_ttl :: "string \<rightharpoonup> nat"
  mem :: "string \<rightharpoonup> json list"
  timers :: "string \<rightharpoonup> nat"

text \<open>
  What the outside world does during one call: each Redis command either succeeds
  (\<open>None\<close>) or throws; \<open>now\<close> is the value of \<open>Date.now()\<close>.
\<close>

record redis_io =
  connect_error :: "js_error option"

record history_io = redis_io +
  lRange_error :: "js_error option"

record append_io = redis_io +
  rPush_error :: "js_error option"
  expire_error :: "js_error option"
  now :: nat

definition KEY :: "string \<Rightarrow> string" where
  "KEY sid = ''chat:'' @ sid"

definition touchMem :: "config \<Rightarrow> string \<Rightarrow> store \<Rightarrow> store" where
  "touchMem cfg k s = s\<lparr>timers := (timers s)(k \<mapsto> TTL_SECONDS cfg * 1000)\<rparr>"



text \<open>
  \<open>appendMessage(sessionId, msg)\<close>. The stored value is \<open>{ ...msg, ts: Date.now() }\<close>.
  The result is the completion of the call together with the state it leaves.
\<close>

definition stamped :: "(string \<times> json) list \<Rightarrow> nat \<Rightarrow> json" where
  "stamped msg t = JObj (AList.update ''ts'' (JNum (int t)) msg)"

definition appendMessage ::
  "config \<Rightarrow> append_io \<Rightarrow> string \<Rightarrow> (string \<times> json) list \<Rightarrow> store \<Rightarrow> (js_error + unit) \<times> store" where
  "appendMessage cfg io sessionId msg s =
     (let k = KEY sessionId;
          v = stamped msg (now io)
      in if has_redis cfg
         then (case connect_error io of
                 Some e \<Rightarrow> (Inl e, s)
               | None \<Rightarrow>
                   (case rPush_error io of
                      Some e \<Rightarrow> (Inl e, s)
                    | None \<Rightarrow>
                        (let s1 = s\<lparr>redis := (redis s)
                                     (k \<mapsto> (case redis s k of None \<Rightarrow> [] | Some l \<Rightarrow> l) @ [Some v])\<rparr>
                         in case expire_error io of
                              Some e \<Rightarrow> (Inl e, s1)
                            | None \<Rightarrow>
                                (Inr (), s1\<lparr>redis_ttl := (redis_ttl s1)(k \<mapsto> TTL_SECONDS cfg)\<rparr>))))
         else (let arr = (case mem s k of None \<Rightarrow> [] | Some a \<Rightarrow> a) @ [v]
               in (Inr (), touchMem cfg k (s\<lparr>mem := (mem s)(k \<mapsto> arr)\<rparr>))))"

text \<open>\<open>getHistory(sessionId)\<close>; it does not change the lists.\<close>

definition getHistory :: "config \<Rightarrow> history_io \<Rightarrow> string \<Rightarrow> store \<Rightarrow> js_error + json list" where
  "getHistory cfg io sessionId s =
     (let k = KEY sessionId
      in if has_redis cfg
         then (case connect_error io of
                 Some e \<Rightarrow> Inl e
               | None \<Rightarrow>
                   (case lRange_error io of
                      Some e \<Rightarrow> Inl e
                    | None \<Rightarrow>
                        Inr (filter truthy
                               (map (\<lambda>x. case x of None \<Rightarrow> JNull | Some v \<Rightarrow> v)
                                  (case redis s k of None \<Rightarrow> [] | Some l \<Rightarrow> l)))))
         else Inr (case mem s k of None \<Rightarrow> [] | Some a \<Rightarrow> a))"


text \<open>
  The log of a session as the backend in use holds it: the Redis list, or the array in
  \<open>mem\<close> (each element shown as the string that would encode it).
\<close>

definition session_log :: "config \<Rightarrow> store \<Rightarrow> string \<Rightarrow> json option list" where
  "session_log cfg s sid =
     (if has_redis cfg then (case redis s (KEY sid) of None \<Rightarrow> [] | Some l \<Rightarrow> l)
      else map Some (case mem s (KEY sid) of None \<Rightarrow> [] | Some a \<Rightarrow> a))"

section \<open>The prompt (gemini.js, answerWithContext)\<close>

fun map_result :: "('a \<Rightarrow> 'e + 'b) \<Rightarrow> 'a list \<Rightarrow> 'e + 'b list" where
  "map_result f [] = Inr []"
| "map_result f (x # xs) =
     (case f x of
        Inl e \<Rightarrow> Inl e
      | Inr y \<Rightarrow> (case map_result f xs of Inl e \<Rightarrow> Inl e | Inr ys \<Rightarrow> Inr (y # ys)))"

text \<open>
  One line of the history: \<open>`${m.role.toUpperCase()}: ${m.content}`\<close>. Calling
  \<open>toUpperCase\<close> on anything but a string throws.
\<close>

definition render_turn :: "json \<Rightarrow> js_error + string" where
  "render_turn m =
     (case get_prop m ''role'' of
        Inl e \<Rightarrow> Inl e
      | Inr (Some (JStr r)) \<Rightarrow>
          (case get_prop m ''content'' of
             Inl e \<Rightarrow> Inl e
           | Inr c \<Rightarrow> Inr (toUpperCase r @ '': '' @ display c))
      | Inr other \<Rightarrow> Inl (TypeError ''m.role.toUpperCase is not a function''))"

definition histText :: "json list \<Rightarrow> js_error + string" where
  "histText history =
     (case map_result render_turn (slice history (- 6) (int (length history))) of
        Inl e \<Rightarrow> Inl e
      | Inr lines \<Rightarrow> Inr (join nl lines))"

definition ctxBlocks :: "contextDoc list \<Rightarrow> string" where
  "ctxBlocks docs =
     join nl
       (map (\<lambda>(i, d). ''---'' @ nl @ ''['' @ show_nat (i + 1) @ ''] TITLE: '' @ doc_title d @ nl @
                      ''URL: '' @ doc_url d @ nl @ ''TEXT: '' @ doc_text d)
          (enumerate 0 docs))"

definition sys :: string where
  "sys = ''You are a helpful news assistant. Only use the CONTEXT. Cite sources like [1], [2]. If unsure, say you are unsure.''"

definition prompt_of :: "string \<Rightarrow> string \<Rightarrow> string \<Rightarrow> string" where
  "prompt_of ctx hist message =
     sys @ nl @ nl @ ''CONTEXT:'' @ nl @ ctx @ nl @ nl @ ''CHAT HISTORY:'' @ nl @ hist @
     nl @ nl @ ''USER: '' @ message @ nl @ ''ASSISTANT:''"

text \<open>
  \<open>answerWithContext\<close>. The model call \<open>generateContent prompt k\<close> is invocation
  number \<open>k\<close> on \<open>prompt\<close>: it throws, or returns a response whose \<open>text()\<close> throws
  or returns the reply.
\<close>

definition answerWithContext ::
  "(string \<Rightarrow> nat \<Rightarrow> js_error + (js_error + string)) \<Rightarrow> string \<Rightarrow> contextDoc list \<Rightarrow>
     json list \<Rightarrow> js_error + string" where
  "answerWithContext generateContent message docs history =
     (case histText history of
        Inl e \<Rightarrow> Inl e
      | Inr hist \<Rightarrow>
          (case outcome (retryWithBackoff
                   (generateContent (prompt_of (ctxBlocks docs) hist message)) 3 1000) of
             Inl e \<Rightarrow> Inl e
           | Inr Undefined \<Rightarrow> Inl (TypeError ''Cannot read properties of undefined'')
           | Inr (Value resp) \<Rightarrow> resp))"

section \<open>The chat orchestrator (rag.js, handleChat)\<close>

record chat_env =
  history_io :: history_io
  getEmbedding :: "string \<Rightarrow> js_error + rat list"
  search :: "rat list \<Rightarrow> js_error + candidate list"
  generateContent :: "string \<Rightarrow> nat \<Rightarrow> js_error + (js_error + string)"
  user_io :: append_io
  assistant_io :: append_io

definition failed :: js_error where
  "failed = Error ''Failed to process chat message''"

definition turn_msg :: "string \<Rightarrow> string \<Rightarrow> (string \<times> json) list" where
  "turn_msg m r = [(''message'', JStr m), (''role'', JStr r)]"

text \<open>Lines 17 to 62: everything up to and including generation and the citations.\<close>

definition chat_reply ::
  "config \<Rightarrow> chat_env \<Rightarrow> string \<Rightarrow> string \<Rightarrow> store \<Rightarrow> js_error + (string \<times> citation list)" where
  "chat_reply cfg env sessionId message s =
     (case getHistory cfg (history_io env) sessionId s of
        Inl e \<Rightarrow> Inl e
      | Inr history \<Rightarrow>
          (case getEmbedding env message of
             Inl e \<Rightarrow> Inl e
           | Inr queryVector \<Rightarrow>
               (case search env queryVector of
                  Inl e \<Rightarrow> Inl e
                | Inr searchResults \<Rightarrow>
                    (let final = finalResults searchResults
                     in case answerWithContext (generateContent env) message
                               (contextDocs final) history of
                          Inl e \<Rightarrow> Inl e
                        | Inr reply \<Rightarrow> Inr (reply, citations_of final)))))"

text \<open>
  \<open>handleChat\<close>: lines 17 to 62, then the two appends of lines 65 and 66; whatever is
  thrown is caught and replaced by one error (lines 69 to 72).
\<close>

definition handleChat ::
  "config \<Rightarrow> chat_env \<Rightarrow> string \<Rightarrow> string \<Rightarrow> store \<Rightarrow>
     (js_error + (string \<times> citation list)) \<times> store" where
  "handleChat cfg env sessionId message s =
     (case chat_reply cfg env sessionId message s of
        Inl e \<Rightarrow> (Inl failed, s)
      | Inr (reply, citations) \<Rightarrow>
          (case appendMessage cfg (user_io env) sessionId (turn_msg message ''user'') s of
             (Inl e, s1) \<Rightarrow> (Inl failed, s1)
           | (Inr u, s1) \<Rightarrow>
               (case appendMessage cfg (assistant_io env) sessionId
                       (turn_msg reply ''assistant'') s1 of
                  (Inl e, s2) \<Rightarrow> (Inl failed, s2)
                | (Inr u', s2) \<Rightarrow> (Inr (reply, citations), s2))))"

section \<open>Concrete stores and environments\<close>

definition empty_store :: store where
  "empty_store = \<lparr>redis = Map.empty, redis_ttl = Map.empty, mem = Map.empty, timers = Map.empty\<rparr>"

definition cfg_mem :: config where
  "cfg_mem = \<lparr>has_redis = False, TTL_SECONDS = 86400\<rparr>"

definition cfg_redis :: config where
  "cfg_redis = \<lparr>has_redis = True, TTL_SECONDS = 86400\<rparr>"

definition no_fault :: history_io where
  "no_fault = \<lparr>connect_error = None, lRange_error = None\<rparr>"

definition ok_append :: "nat \<Rightarrow> append_io" where
  "ok_append t = \<lparr>connect_error = None, rPush_error = None, expire_error = None, now = t\<rparr>"

definition redis_down :: js_error where
  "redis_down = Error ''Socket closed unexpectedly''"

text \<open>
  A request for which every collaborator answers: the embedding is returned, the search
  returns the candidates of scenario B, the model replies at its first invocation, and
  both appends go through.
\<close>

definition env_ok :: chat_env where
  "env_ok =
     \<lparr>history_io = no_fault,
      getEmbedding = (\<lambda>m. Inr [1]),
      search = (\<lambda>v. Inr scenario_B),
      generateContent = (\<lambda>p k. Inr (Inr ''I am unsure.'')),
      user_io = ok_append 1000,
      assistant_io = ok_append 1001\<rparr>"

text \<open>The same request, with the \<open>rPush\<close> of the second append throwing.\<close>

definition env_second_append_fails :: chat_env where
  "env_second_append_fails =
     env_ok\<lparr>assistant_io := (ok_append 1001)\<lparr>rPush_error := Some redis_down\<rparr>\<rparr>"

text \<open>The same request, with the embedding service rejecting the call.\<close>

definition env_no_embedding :: chat_env where
  "env_no_embedding = env_ok\<lparr>getEmbedding := (\<lambda>m. Inl unauthorized)\<rparr>"


section \<open>The ingestion loop (ingest.js, main, lines 192 to 258)\<close>

record document =
  page_url :: string
  page_title :: string
  page_text :: jsstring

record payload =
  chunk_url :: string
  chunk_title :: string
  chunk_text :: jsstring

record point =
  point_id :: string
  vector :: "rat list option"
  payload :: payload

text \<open>
  The collaborators of the loop, as the outcomes of their calls while one URL is
  processed: \<open>scrape url\<close>; \<open>embedMany url g grp\<close>, the call for group number
  \<open>g\<close> of that URL; \<open>upsertPoints url points\<close>, which returns or throws; and
  \<open>uuid url idx\<close>, the identifier drawn for chunk number \<open>idx\<close>.
\<close>

record ingest_env =
  scrape :: "string \<Rightarrow> js_error + document"
  embedMany :: "string \<Rightarrow> nat \<Rightarrow> jsstring list \<Rightarrow> js_error + rat list list"
  upsertPoints :: "string \<Rightarrow> point list \<Rightarrow> js_error option"
  uuid :: "string \<Rightarrow> nat \<Rightarrow> string"

text \<open>
  \<open>chunkArray(arr, size)\<close>, with \<open>n\<close> for \<open>size\<close>. For \<open>size \<le> 0\<close> the source does not
  terminate; its only call passes 4, and the model stops at once for \<open>n = 0\<close>.
\<close>

function chunkArray_loop :: "'a list \<Rightarrow> nat \<Rightarrow> nat \<Rightarrow> 'a list list \<Rightarrow> 'a list list" where
  "chunkArray_loop arr n i out =
     (if i < length arr \<and> 0 < n
      then chunkArray_loop arr n (i + n) (out @ [slice arr (int i) (int (i + n))])
      else out)"
  by pat_completeness auto
termination
  by (relation "measure (\<lambda>(arr, n, i, out). length arr - i)") auto

declare chunkArray_loop.simps [simp del]

definition chunkArray :: "'a list \<Rightarrow> nat \<Rightarrow> 'a list list" where
  "chunkArray arr n = chunkArray_loop arr n 0 []"

text \<open>Lines 215 to 228: the groups are embedded in order; the first error is rethrown.\<close>

fun embed_groups ::
  "(nat \<Rightarrow> jsstring list \<Rightarrow> js_error + rat list list) \<Rightarrow> jsstring list list \<Rightarrow> nat \<Rightarrow>
     rat list list \<Rightarrow> js_error + rat list list" where
  "embed_groups call [] g vectors = Inr vectors"
| "embed_groups call (grp # rest) g vectors =
     (case call g grp of
        Inl embedError \<Rightarrow> Inl embedError
      | Inr v \<Rightarrow> embed_groups call rest (Suc g) (vectors @ v))"

text \<open>
  The body of the \<open>try\<close> block for one URL (lines 198 to 247): it throws, or skips the
  URL (\<open>continue\<close>), or ingests the points it returns.
\<close>

datatype url_result = Skipped | Ingested "point list"

definition ingest_url :: "ingest_env \<Rightarrow> string \<Rightarrow> js_error + url_result" where
  "ingest_url env u =
     (case scrape env u of
        Inl e \<Rightarrow> Inl e
      | Inr doc \<Rightarrow>
          if page_text doc = [] \<or> length (page_text doc) < 500 then Inr Skipped
          else (let chunks = chunkText (page_text doc)
                in case embed_groups (embedMany env u) (chunkArray chunks 4) 0 [] of
                     Inl e \<Rightarrow> Inl e
                   | Inr vectors \<Rightarrow>
                       (let points =
                              map (\<lambda>(idx, chunk).
                                     \<lparr>point_id = uuid env u idx,
                                      vector = (if idx < length vectors then Some (vectors ! idx)
                                                else None),
                                      payload = \<lparr>chunk_url = page_url doc,
                                                 chunk_title = page_title doc,
                                                 chunk_text = chunk\<rparr>\<rparr>)
                                (enumerate 0 chunks)
                        in case upsertPoints env u points of
                             Some e \<Rightarrow> Inl e
                           | None \<Rightarrow> Inr (Ingested points))))"

text \<open>
  The state of the loop: the counter \<open>processed\<close>, the lines written to the JSONL file,
  the points upserted, and the URLs for which the \<open>catch\<close> block logged an error.
\<close>

record ingest_state =
  processed :: nat
  jsonl :: "payload list"
  upserted :: "point list"
  warned :: "(string \<times> js_error) list"

definition ingest_start :: ingest_state where
  "ingest_start = \<lparr>processed = 0, jsonl = [], upserted = [], warned = []\<rparr>"

text \<open>One iteration: the \<open>try\<close> block and its \<open>catch\<close>.\<close>

definition ingest_step :: "ingest_env \<Rightarrow> ingest_state \<Rightarrow> string \<Rightarrow> ingest_state" where
  "ingest_step env st u =
     (case ingest_url env u of
        Inl e \<Rightarrow> st\<lparr>warned := warned st @ [(u, e)]\<rparr>
      | Inr Skipped \<Rightarrow> st
      | Inr (Ingested points) \<Rightarrow>
          st\<lparr>upserted := upserted st @ points,
             jsonl := jsonl st @ map payload points,
             processed := Suc (processed st)\<rparr>)"

function ingest_loop :: "ingest_env \<Rightarrow> string list \<Rightarrow> nat \<Rightarrow> ingest_state \<Rightarrow> ingest_state" where
  "ingest_loop env urls i st =
     (if i < length urls then ingest_loop env urls (Suc i) (ingest_step env st (urls ! i))
      else st)"
  by pat_completeness auto
termination
  by (relation "measure (\<lambda>(env, urls, i, st). length urls - i)") auto

declare ingest_loop.simps [simp del]

text \<open>The final report of line 258: \<open>Ingested ${processed}/${urls.length}\<close>.\<close>

definition ingest_report :: "ingest_env \<Rightarrow> string list \<Rightarrow> nat \<times> nat" where
  "ingest_report env urls = (processed (ingest_loop env urls 0 ingest_start), length urls)"

definition is_ingested :: "ingest_env \<Rightarrow> string \<Rightarrow> bool" where
  "is_ingested env u = (case ingest_url env u of Inr (Ingested points) \<Rightarrow> True | _ \<Rightarrow> False)"

definition has_failed :: "ingest_env \<Rightarrow> string \<Rightarrow> bool" where
  "has_failed env u = (case ingest_url env u of Inl e \<Rightarrow> True | _ \<Rightarrow> False)"

definition written_for :: "ingest_env \<Rightarrow> string \<Rightarrow> payload list" where
  "written_for env u =
     (case ingest_url env u of Inr (Ingested points) \<Rightarrow> map payload points | _ \<Rightarrow> [])"

text \<open>
  A run over three URLs: the first cannot be fetched, the second has 120 characters of
  text, the third has 600.
\<close>

definition not_found :: js_error where
  "not_found =
     \<lparr>status = Some 404, response_status = Some 404,
      err_message = Some ''Request failed with status code 404''\<rparr>"

definition demo_env :: ingest_env where
  "demo_env =
     \<lparr>scrape = (\<lambda>u. if u = ''https://example.org/gone'' then Inl not_found
                    else if u = ''https://example.org/short''
                    then Inr \<lparr>page_url = u, page_title = ''Short'',
                              page_text = replicate 120 0x61\<rparr>
                    else Inr \<lparr>page_url = u, page_title = ''Long'',
                              page_text = replicate 600 0x61\<rparr>),
      embedMany = (\<lambda>u g grp. Inr (map (\<lambda>c. [1]) grp)),
      upsertPoints = (\<lambda>u points. None),
      uuid = (\<lambda>u idx. u @ ''#'' @ show_nat idx)\<rparr>"

definition demo_urls :: "string list" where
  "demo_urls =
     [''https://example.org/gone'', ''https://example.org/short'', ''https://example.org/long'']"

section \<open>Properties of the chunker\<close>

lemma length_trim_le: "length (trim s) \<le> length s"
proof -
  have "length (dropWhile is_ws (rev (dropWhile is_ws s))) \<le> length (rev (dropWhile is_ws s))"
    by (rule length_dropWhile_le)
  also have "\<dots> \<le> length s"
    by (simp add: length_dropWhile_le)
  finally show ?thesis by (simp add: trim_def)
qed

lemma length_slice_le: "0 \<le> a \<Longrightarrow> 0 \<le> b \<Longrightarrow> length (slice s a b) \<le> nat (b - a)"
  by (auto simp: slice_def Let_def min_def max_def)

lemma scan_down_le: "scan_down s c k \<le> int k"
  by (induction k) auto

lemma lastIndexOf_le: "0 \<le> f \<Longrightarrow> lastIndexOf s c f \<le> f"
proof (cases "s = []")
  case True
  assume "0 \<le> f"
  with True show ?thesis by (simp add: lastIndexOf_def)
next
  case False
  assume f: "0 \<le> f"
  have "scan_down s c (min (nat (max f 0)) (length s - 1)) \<le> int (min (nat (max f 0)) (length s - 1))"
    by (rule scan_down_le)
  also have "\<dots> \<le> f" using f by simp
  finally show ?thesis using False by (simp add: lastIndexOf_def)
qed

lemma lastSentenceEnd_le: "0 \<le> e \<Longrightarrow> lastSentenceEnd text e \<le> e"
  by (simp add: lastSentenceEnd_def lastIndexOf_le)

lemma chunk_end_le: "0 \<le> i \<Longrightarrow> 0 \<le> maxChars \<Longrightarrow> chunk_end text maxChars i \<le> i + maxChars + 1"
proof -
  assume i: "0 \<le> i" and m: "0 \<le> maxChars"
  let ?e = "min (int (length text)) (i + maxChars)"
  have e0: "0 \<le> ?e" using i m by simp
  have "lastSentenceEnd text ?e \<le> ?e" using e0 by (rule lastSentenceEnd_le)
  then show ?thesis
    by (auto simp: chunk_end_def Let_def)
qed

lemma chunk_end_nonneg: "0 \<le> i \<Longrightarrow> 0 \<le> maxChars \<Longrightarrow> 0 \<le> chunk_end s maxChars i"
  by (auto simp: chunk_end_def Let_def)

lemma chunk_loop_stop:
  "\<not> (i < int (length s) \<and> chunkCount < maxChunks) \<Longrightarrow>
     chunk_loop s maxChars overlap i chunkCount chunks = chunks"
  by (subst chunk_loop.simps) auto

lemma chunk_loop_step:
  "i < int (length s) \<Longrightarrow> chunkCount < maxChunks \<Longrightarrow>
     chunk_loop s maxChars overlap i chunkCount chunks =
       chunk_loop s maxChars overlap
         (if chunk_end s maxChars i - overlap < 0 then 0 else chunk_end s maxChars i - overlap)
         (Suc chunkCount)
         (if 100 < length (trim (slice s i (chunk_end s maxChars i)))
          then chunks @ [trim (slice s i (chunk_end s maxChars i))] else chunks)"
  by (subst chunk_loop.simps) (simp add: Let_def)

lemma chunk_loop_bounds:
  assumes "0 \<le> i" and "0 \<le> maxChars"
    and "\<forall>c \<in> set chunks. 100 < length c \<and> int (length c) \<le> maxChars + 1"
  shows "\<forall>c \<in> set (chunk_loop s maxChars overlap i chunkCount chunks).
           100 < length c \<and> int (length c) \<le> maxChars + 1"
  using assms
proof (induction s maxChars overlap i chunkCount chunks rule: chunk_loop.induct)
  case (1 s maxChars overlap i chunkCount chunks)
  show ?case
  proof (cases "i < int (length s) \<and> chunkCount < maxChunks")
    case False
    then show ?thesis using "1.prems" by (simp add: chunk_loop_stop)
  next
    case True
    define e where "e = chunk_end s maxChars i"
    define chunk where "chunk = trim (slice s i e)"
    define chunks' where "chunks' = (if 100 < length chunk then chunks @ [chunk] else chunks)"
    define i' where "i' = (if e - overlap < 0 then 0 else e - overlap)"
    have le: "e \<le> i + maxChars + 1"
      unfolding e_def using "1.prems"(1,2) by (rule chunk_end_le)
    have "length chunk \<le> length (slice s i e)"
      unfolding chunk_def by (rule length_trim_le)
    also have "\<dots> \<le> nat (e - i)"
      using "1.prems"(1) chunk_end_nonneg [OF "1.prems"(1,2)] unfolding e_def
      by (rule length_slice_le)
    finally have len: "int (length chunk) \<le> maxChars + 1"
      using le "1.prems"(2) by linarith
    have inv: "\<forall>c \<in> set chunks'. 100 < length c \<and> int (length c) \<le> maxChars + 1"
      using "1.prems"(3) len by (auto simp: chunks'_def)
    have i0: "0 \<le> i'" by (simp add: i'_def)
    have IH: "\<forall>c \<in> set (chunk_loop s maxChars overlap i' (Suc chunkCount) chunks').
                100 < length c \<and> int (length c) \<le> maxChars + 1"
      using "1.IH" [OF True e_def chunk_def chunks'_def i'_def i0 "1.prems"(2) inv] .
    have "chunk_loop s maxChars overlap i chunkCount chunks =
            chunk_loop s maxChars overlap i' (Suc chunkCount) chunks'"
      using True
      by (simp add: chunk_loop_step e_def chunk_def chunks'_def i'_def)
    with IH show ?thesis by simp
  qed
qed

lemma chunk_end_at_tail:
  "int (length s) \<le> i + maxChars \<Longrightarrow> chunk_end s maxChars i = int (length s)"
  by (simp add: chunk_end_def Let_def)

lemma chunk_loop_tail:
  assumes "0 < overlap" and "s \<noteq> []"
    and "i = max 0 (int (length s) - overlap)"
    and "int (length s) \<le> i + maxChars"
  shows "chunk_loop s maxChars overlap i chunkCount chunks =
           chunks @ (if 100 < length (trim (slice s i (int (length s))))
                     then replicate (maxChunks - chunkCount) (trim (slice s i (int (length s))))
                     else [])"
proof (induction n \<equiv> "maxChunks - chunkCount" arbitrary: chunkCount chunks)
  case 0
  then have "\<not> (i < int (length s) \<and> chunkCount < maxChunks)" by simp
  then show ?case using 0 by (simp add: chunk_loop_stop)
next
  case (Suc n)
  from assms have lt: "i < int (length s)" by auto
  from Suc have cc: "chunkCount < maxChunks" and n: "n = maxChunks - Suc chunkCount" by simp_all
  have e: "chunk_end s maxChars i = int (length s)"
    using assms(4) by (rule chunk_end_at_tail)
  have i': "(if int (length s) - overlap < 0 then 0 else int (length s) - overlap) = i"
    using assms(3) by auto
  have rep: "maxChunks - chunkCount = Suc (maxChunks - Suc chunkCount)" using cc by simp
  have step: "chunk_loop s maxChars overlap i chunkCount chunks =
      chunk_loop s maxChars overlap i (Suc chunkCount)
        (if 100 < length (trim (slice s i (int (length s))))
         then chunks @ [trim (slice s i (int (length s)))] else chunks)"
    using chunk_loop_step [OF lt cc, of maxChars overlap chunks] unfolding e i' .
  show ?case
    unfolding step Suc.hyps(1) [OF n] rep by (simp add: replicate_append_same)
qed

lemma slice_all: "slice s 0 (int (length s)) = s"
  by (simp add: slice_def)

lemma slice_drop: "0 \<le> a \<Longrightarrow> a \<le> int (length s) \<Longrightarrow> slice s a (int (length s)) = drop (nat a) s"
  by (simp add: slice_def Let_def min_def)

lemma slice_take: "0 \<le> b \<Longrightarrow> slice s 0 b = take (nat b) s"
  by (auto simp add: slice_def Let_def min_def)

lemma chunk_loop_short:
  assumes "0 < overlap" and "s \<noteq> []" and "int (length s) \<le> maxChars"
  shows "chunk_loop s maxChars overlap 0 0 [] =
           (if 100 < length (trim s) then [trim s] else []) @
           (if 100 < length (trim (drop (length s - nat overlap) s))
            then replicate (maxChunks - 1) (trim (drop (length s - nat overlap) s)) else [])"
proof -
  let ?L = "int (length s)"
  let ?i = "max 0 (?L - overlap)"
  have lt: "0 < ?L" using assms(2) by simp
  have mc: "(0::nat) < maxChunks" by (simp add: maxChunks_def)
  have e: "chunk_end s maxChars 0 = ?L" using assms(3) by (simp add: chunk_end_at_tail)
  have i': "(if ?L - overlap < 0 then 0 else ?L - overlap) = ?i" by auto
  have le: "?L \<le> ?i + maxChars" using assms(3) by auto
  have sl: "slice s ?i ?L = drop (length s - nat overlap) s"
  proof -
    have "slice s ?i ?L = drop (nat ?i) s" using assms(1) by (intro slice_drop) auto
    moreover have "nat ?i = length s - nat overlap" using assms(1) by auto
    ultimately show ?thesis by simp
  qed
  have step: "chunk_loop s maxChars overlap 0 0 [] =
      chunk_loop s maxChars overlap ?i (Suc 0)
        (if 100 < length (trim s) then [] @ [trim s] else [])"
    using chunk_loop_step [OF lt mc, of maxChars overlap "[]"] unfolding e i' slice_all .
  show ?thesis
    unfolding step chunk_loop_tail [OF assms(1,2) refl le] sl by simp
qed

lemma chunk_loop_min_length:
  "\<forall>c \<in> set chunks. 100 < length c \<Longrightarrow>
     \<forall>c \<in> set (chunk_loop s maxChars overlap i chunkCount chunks). 100 < length c"
proof (induction s maxChars overlap i chunkCount chunks rule: chunk_loop.induct)
  case (1 s maxChars overlap i chunkCount chunks)
  show ?case
  proof (cases "i < int (length s) \<and> chunkCount < maxChunks")
    case False
    then show ?thesis using "1.prems" by (simp add: chunk_loop_stop)
  next
    case True
    define e where "e = chunk_end s maxChars i"
    define chunk where "chunk = trim (slice s i e)"
    define chunks' where "chunks' = (if 100 < length chunk then chunks @ [chunk] else chunks)"
    define i' where "i' = (if e - overlap < 0 then 0 else e - overlap)"
    have inv: "\<forall>c \<in> set chunks'. 100 < length c"
      using "1.prems" by (auto simp: chunks'_def)
    have step: "chunk_loop s maxChars overlap i chunkCount chunks =
                  chunk_loop s maxChars overlap i' (Suc chunkCount) chunks'"
      using True chunk_loop_step [of i s chunkCount maxChars overlap chunks]
      unfolding e_def chunk_def chunks'_def i'_def by blast
    show ?thesis
      unfolding step using "1.IH" [OF True e_def chunk_def chunks'_def i'_def inv] .
  qed
qed

lemma chunkText_with_loop:
  "chunkText_with s maxChars overlap = chunk_loop s maxChars overlap 0 0 []"
proof -
  have "\<forall>c \<in> set (chunk_loop s maxChars overlap 0 0 []). 100 < length c"
    by (rule chunk_loop_min_length) simp
  then have "\<forall>c \<in> set (chunk_loop s maxChars overlap 0 0 []). c \<noteq> []" by auto
  then show ?thesis by (simp add: chunkText_with_def)
qed

lemma chunkText_short:
  assumes "s \<noteq> []" and "length s \<le> 1500"
  shows "chunkText s =
           (if 100 < length (trim s) then [trim s] else []) @
           (if 100 < length (trim (drop (length s - 150) s))
            then replicate 29 (trim (drop (length s - 150) s)) else [])"
proof -
  have "int (length s) \<le> 1500" using assms(2) by simp
  from chunk_loop_short [OF _ assms(1) this, of 150]
  show ?thesis by (simp add: chunkText_def chunkText_with_loop maxChunks_def)
qed

lemma trim_replicate: "\<not> is_ws c \<Longrightarrow> trim (replicate n c) = replicate n c"
  by (simp add: trim_def dropWhile_replicate)

lemma not_ws_a: "\<not> is_ws 0x61"
  by (simp add: is_ws_def)

lemma chunk_loop_mono: "set chunks \<subseteq> set (chunk_loop s maxChars overlap i chunkCount chunks)"
proof (induction s maxChars overlap i chunkCount chunks rule: chunk_loop.induct)
  case (1 s maxChars overlap i chunkCount chunks)
  show ?case
  proof (cases "i < int (length s) \<and> chunkCount < maxChunks")
    case False
    then show ?thesis by (simp add: chunk_loop_stop)
  next
    case True
    define e where "e = chunk_end s maxChars i"
    define chunk where "chunk = trim (slice s i e)"
    define chunks' where "chunks' = (if 100 < length chunk then chunks @ [chunk] else chunks)"
    define i' where "i' = (if e - overlap < 0 then 0 else e - overlap)"
    have sub: "set chunks \<subseteq> set chunks'" by (auto simp: chunks'_def)
    have step: "chunk_loop s maxChars overlap i chunkCount chunks =
                  chunk_loop s maxChars overlap i' (Suc chunkCount) chunks'"
      using True chunk_loop_step [of i s chunkCount maxChars overlap chunks]
      unfolding e_def chunk_def chunks'_def i'_def by blast
    show ?thesis
      unfolding step using "1.IH" [OF True e_def chunk_def chunks'_def i'_def] sub by blast
  qed
qed

lemma scan_down_hit: "s ! k = c \<Longrightarrow> scan_down s c k = int k"
  by (cases k) simp_all

lemma scan_down_miss: "c \<notin> set s \<Longrightarrow> k < length s \<Longrightarrow> scan_down s c k = - 1"
  by (induction k) (auto simp: in_set_conv_nth)

lemma trim_id: "s \<noteq> [] \<Longrightarrow> \<not> is_ws (hd s) \<Longrightarrow> \<not> is_ws (last s) \<Longrightarrow> trim s = s"
proof -
  assume ne: "s \<noteq> []" and h: "\<not> is_ws (hd s)" and l: "\<not> is_ws (last s)"
  have 1: "dropWhile is_ws s = s" using h by (simp add: dropWhile_eq_self_iff)
  have "hd (rev s) = last s" using ne by (simp add: hd_rev)
  then have 2: "dropWhile is_ws (rev s) = rev s" using l by (simp add: dropWhile_eq_self_iff)
  show ?thesis by (simp add: trim_def 1 2)
qed

lemma long_text_end: "chunk_end long_text 1500 0 = 1501"
proof -
  have len: "length long_text = 1600" by (simp add: long_text_def)
  have ne: "long_text \<noteq> []" by (simp add: long_text_def)
  have p: "lastIndexOf long_text period 1500 = 1500"
    using ne by (simp add: lastIndexOf_def len scan_down_hit long_text_def nth_append)
  have "exclamation \<notin> set long_text"
    by (simp add: long_text_def period_def exclamation_def)
  then have e: "lastIndexOf long_text exclamation 1500 = - 1"
    using ne by (simp add: lastIndexOf_def len scan_down_miss)
  have "question \<notin> set long_text"
    by (simp add: long_text_def period_def question_def)
  then have q: "lastIndexOf long_text question 1500 = - 1"
    using ne by (simp add: lastIndexOf_def len scan_down_miss)
  show ?thesis
    by (simp add: chunk_end_def Let_def len lastSentenceEnd_def p e q)
qed


lemma long_text_first_chunk:
  "replicate 1500 0x61 @ [period] \<in> set (chunkText long_text)"
proof -
  let ?c = "replicate 1500 (0x61 :: 16 word) @ [period]"
  have len: "length long_text = 1600" by (simp add: long_text_def)
  have sl: "slice long_text 0 1501 = ?c"
    by (simp add: slice_take long_text_def)
  have tr: "trim ?c = ?c"
    by (rule trim_id) (simp_all add: hd_append not_ws_a is_ws_def period_def)
  have lt: "0 < int (length long_text)" by (simp add: len)
  have mc: "0 < maxChunks" by (simp add: maxChunks_def)
  have step: "chunk_loop long_text 1500 150 0 0 [] = chunk_loop long_text 1500 150 1351 (Suc 0) [?c]"
    unfolding chunk_loop_step [OF lt mc] long_text_end sl tr by simp
  have "?c \<in> set (chunk_loop long_text 1500 150 1351 (Suc 0) [?c])"
    using chunk_loop_mono [of "[?c]" long_text 1500 150 1351 "Suc 0"] by simp
  then show ?thesis
    by (simp add: chunkText_def chunkText_with_loop step)
qed

text \<open>
  C1 (the code departs from the claim). A text of 1200 letters \<open>a\<close> is shorter than
  \<open>maxChars\<close> and has no sentence punctuation, yet \<open>chunkText\<close> returns thirty chunks:
  the full text, then twenty-nine copies of its last 150 code units. The cursor
  \<open>i = end - overlap\<close> never reaches \<open>text.length\<close>, so the loop only stops at
  \<open>maxChunks\<close>.
\<close>

theorem chunkText_1200_thirty_chunks:
  "chunkText (replicate 1200 0x61) = replicate 1200 0x61 # replicate 29 (replicate 150 0x61)"
proof -
  have ne: "replicate 1200 (0x61 :: 16 word) \<noteq> []" by simp
  have le: "length (replicate 1200 (0x61 :: 16 word)) \<le> 1500" by simp
  show ?thesis
    unfolding chunkText_short [OF ne le]
    by (simp add: trim_replicate not_ws_a)
qed

text \<open>
  Whatever the text, a chunk is longer than 100 code units and at most \<open>maxChars + 1\<close>
  code units long.
\<close>

lemma chunk_length_bounds:
  "\<forall>c \<in> set (chunkText s). 100 < length c \<and> length c \<le> 1501"
proof -
  have "\<forall>c \<in> set (chunk_loop s 1500 150 0 0 []). 100 < length c \<and> int (length c) \<le> 1500 + 1"
    by (rule chunk_loop_bounds) simp_all
  then show ?thesis
    by (simp add: chunkText_def chunkText_with_loop)
qed

text \<open>
  C2 (the code departs from the claim). The backward search \<open>lastIndexOf(c, end)\<close>
  starts at index \<open>end\<close> itself, one past the window, and the cut is made after the
  terminator found; so a terminator at index \<open>end\<close> gives a chunk of \<open>maxChars + 1\<close>
  code units. For \<open>long_text\<close> the first chunk returned is 1501 code units long, more
  than \<open>maxChars = 1500\<close>.
\<close>

theorem chunkText_long_text_chunk_of_1501:
  "replicate 1500 0x61 @ [period] \<in> set (chunkText long_text) \<and>
   length (replicate 1500 (0x61 :: 16 word) @ [period]) = 1501"
  using long_text_first_chunk by simp

section \<open>Properties of the retry wrapper\<close>

lemma retry_loop_done:
  "\<not> i < maxRetries \<Longrightarrow>
     retry_loop classify fn maxRetries baseDelay i calls waited =
       \<lparr>outcome = Inr Undefined, invocations = calls, delays = waited\<rparr>"
  by (subst retry_loop.simps) simp

lemma retry_loop_success:
  "i < maxRetries \<Longrightarrow> fn calls = Inr v \<Longrightarrow>
     retry_loop classify fn maxRetries baseDelay i calls waited =
       \<lparr>outcome = Inr (Value v), invocations = Suc calls, delays = waited\<rparr>"
  by (subst retry_loop.simps) simp

lemma retry_loop_transient:
  "i < maxRetries \<Longrightarrow> i \<noteq> maxRetries - 1 \<Longrightarrow> fn calls = Inl error \<Longrightarrow>
   classify error = Inr True \<Longrightarrow>
     retry_loop classify fn maxRetries baseDelay i calls waited =
       retry_loop classify fn maxRetries baseDelay (i + 1) (Suc calls)
         (waited @ [baseDelay * 2 ^ nat i])"
  by (subst retry_loop.simps) simp

lemma retry_loop_permanent:
  "i < maxRetries \<Longrightarrow> i \<noteq> maxRetries - 1 \<Longrightarrow> fn calls = Inl error \<Longrightarrow>
   classify error = Inr False \<Longrightarrow>
     retry_loop classify fn maxRetries baseDelay i calls waited =
       \<lparr>outcome = Inl error, invocations = Suc calls, delays = waited\<rparr>"
  by (subst retry_loop.simps) simp

lemma retry_loop_last:
  "i < maxRetries \<Longrightarrow> i = maxRetries - 1 \<Longrightarrow> fn calls = Inl error \<Longrightarrow>
     retry_loop classify fn maxRetries baseDelay i calls waited =
       \<lparr>outcome = Inl error, invocations = Suc calls, delays = waited\<rparr>"
  by (subst retry_loop.simps) simp

text \<open>
  C6. With \<open>maxRetries = 3\<close>: an operation that throws a transient error on its first
  two invocations and returns on the third makes the wrapper return that value after
  exactly three invocations, having waited \<open>baseDelay * 2 ^ 0\<close> and then
  \<open>baseDelay * 2 ^ 1\<close>; an operation whose first invocation throws a permanent error
  makes the wrapper throw that error after exactly one invocation and no wait. This holds
  for the loop with any classification, hence for both copies of the file.
\<close>

theorem retry_three_attempts:
  "(fn 0 = Inl e1 \<and> classify e1 = Inr True \<and> fn 1 = Inl e2 \<and> classify e2 = Inr True \<and>
    fn 2 = Inr v \<longrightarrow>
      retry_with classify fn 3 baseDelay =
        \<lparr>outcome = Inr (Value v), invocations = 3,
         delays = [baseDelay * 2 ^ 0, baseDelay * 2 ^ 1]\<rparr>) \<and>
   (fn 0 = Inl e \<and> classify e = Inr False \<longrightarrow>
      retry_with classify fn 3 baseDelay =
        \<lparr>outcome = Inl e, invocations = 1, delays = []\<rparr>)"
proof (intro conjI impI)
  assume a: "fn 0 = Inl e1 \<and> classify e1 = Inr True \<and> fn 1 = Inl e2 \<and>
             classify e2 = Inr True \<and> fn 2 = Inr v"
  then have f0: "fn 0 = Inl e1" and c1: "classify e1 = Inr True"
    and f1: "fn (Suc 0) = Inl e2" and c2: "classify e2 = Inr True"
    and f2: "fn (Suc (Suc 0)) = Inr v"
    by (simp_all add: numeral_2_eq_2)
  have "retry_loop classify fn 3 baseDelay 0 0 [] =
          retry_loop classify fn 3 baseDelay 1 (Suc 0) [baseDelay * 2 ^ 0]"
    using retry_loop_transient [of 0 3 fn 0 e1 classify baseDelay "[]"] f0 c1 by simp
  also have "\<dots> =
          retry_loop classify fn 3 baseDelay 2 (Suc (Suc 0))
            [baseDelay * 2 ^ 0, baseDelay * 2 ^ 1]"
    using retry_loop_transient [of 1 3 fn "Suc 0" e2 classify baseDelay "[baseDelay * 2 ^ 0]"]
      f1 c2 by simp
  also have "\<dots> = \<lparr>outcome = Inr (Value v), invocations = Suc (Suc (Suc 0)),
                     delays = [baseDelay * 2 ^ 0, baseDelay * 2 ^ 1]\<rparr>"
    using retry_loop_success [of 2 3 fn "Suc (Suc 0)" v] f2 by simp
  finally show "retry_with classify fn 3 baseDelay =
        \<lparr>outcome = Inr (Value v), invocations = 3,
         delays = [baseDelay * 2 ^ 0, baseDelay * 2 ^ 1]\<rparr>"
    by (simp add: retry_with_def)
next
  assume a: "fn 0 = Inl e \<and> classify e = Inr False"
  then have "retry_loop classify fn 3 baseDelay 0 0 [] =
          \<lparr>outcome = Inl e, invocations = Suc 0, delays = []\<rparr>"
    using retry_loop_permanent [of 0 3 fn 0 e classify baseDelay "[]"] by simp
  then show "retry_with classify fn 3 baseDelay =
        \<lparr>outcome = Inl e, invocations = 1, delays = []\<rparr>"
    by (simp add: retry_with_def)
qed

lemma transient_service_overloaded: "transient service_overloaded"
  by (simp add: transient_def service_overloaded_def)

lemma permanent_unauthorized: "\<not> transient unauthorized"
  by (simp add: transient_def unauthorized_def overload_pattern_def Let_def ascii_lower_def
      sublist_Cons_right)

lemma transient_v1_service_overloaded: "transient_v1 service_overloaded = Inr True"
  by (simp add: transient_v1_def service_overloaded_def)

lemma permanent_v1_unauthorized: "transient_v1 unauthorized = Inr False"
  by (simp add: transient_v1_def unauthorized_def sublist_Cons_right)

theorem retry_three_attempts_witness:
  "transient service_overloaded \<and> \<not> transient unauthorized \<and>
   retryWithBackoff (\<lambda>k. if k < 2 then Inl service_overloaded else Inr ''answer'') 3 1000 =
     \<lparr>outcome = Inr (Value ''answer''), invocations = 3, delays = [1000, 2000]\<rparr> \<and>
   retryWithBackoff (\<lambda>k. Inl unauthorized :: js_error + string) 3 1000 =
     \<lparr>outcome = Inl unauthorized, invocations = 1, delays = []\<rparr> \<and>
   retryWithBackoff_v1 (\<lambda>k. if k < 2 then Inl service_overloaded else Inr ''answer'') 3 1000 =
     \<lparr>outcome = Inr (Value ''answer''), invocations = 3, delays = [1000, 2000]\<rparr> \<and>
   retryWithBackoff_v1 (\<lambda>k. Inl unauthorized :: js_error + string) 3 1000 =
     \<lparr>outcome = Inl unauthorized, invocations = 1, delays = []\<rparr>"
  using
    retry_three_attempts [of "\<lambda>k. if k < 2 then Inl service_overloaded else Inr ''answer''"
      service_overloaded "\<lambda>error. Inr (transient error)" service_overloaded "''answer''"
      1000 unauthorized]
    retry_three_attempts [of "\<lambda>k. Inl unauthorized :: js_error + string"
      unauthorized "\<lambda>error. Inr (transient error)" unauthorized "''answer''"
      1000 unauthorized]
    retry_three_attempts [of "\<lambda>k. if k < 2 then Inl service_overloaded else Inr ''answer''"
      service_overloaded transient_v1 service_overloaded "''answer''" 1000 unauthorized]
    retry_three_attempts [of "\<lambda>k. Inl unauthorized :: js_error + string"
      unauthorized transient_v1 unauthorized "''answer''" 1000 unauthorized]
    transient_service_overloaded permanent_unauthorized
    transient_v1_service_overloaded permanent_v1_unauthorized
  by (simp add: retryWithBackoff_def retryWithBackoff_v1_def)

text \<open>
  C10. With \<open>maxRetries = 0\<close> the loop body never runs: the wrapped operation is not
  invoked, nothing is thrown, and the call yields \<open>undefined\<close>.
\<close>

theorem retry_zero_returns_undefined:
  "retryWithBackoff fn 0 baseDelay =
     \<lparr>outcome = Inr Undefined, invocations = 0, delays = []\<rparr>"
  by (simp add: retryWithBackoff_def retry_with_def retry_loop_done)

section \<open>Properties of the retrieval filter and of the citations\<close>

text \<open>
  C4. The filter returns exactly the candidates with \<open>score \<ge> minScore\<close>, in input
  order, when there is one; otherwise the first three candidates of the input; so for a
  non-empty input the output is not empty. In both cases the output is a subsequence of
  the input.
\<close>

theorem retrieval_filter_policy:
  "((\<exists>c \<in> set cs. score c \<ge> minScore) \<longrightarrow>
      finalResults cs = filter (\<lambda>c. score c \<ge> minScore) cs) \<and>
   ((\<forall>c \<in> set cs. score c < minScore) \<longrightarrow> finalResults cs = take 3 cs) \<and>
   (cs \<noteq> [] \<longrightarrow> finalResults cs \<noteq> []) \<and>
   subseq (finalResults cs) cs"
proof (intro conjI impI)
  assume "\<exists>c \<in> set cs. score c \<ge> minScore"
  then have "filter (\<lambda>c. score c \<ge> minScore) cs \<noteq> []"
    by (simp add: filter_empty_conv)
  then show "finalResults cs = filter (\<lambda>c. score c \<ge> minScore) cs"
    by (simp add: finalResults_def filteredResults_def)
next
  assume "\<forall>c \<in> set cs. score c < minScore"
  then have "filter (\<lambda>c. score c \<ge> minScore) cs = []"
    by (auto simp: filter_empty_conv)
  then show "finalResults cs = take 3 cs"
    by (simp add: finalResults_def filteredResults_def slice_take)
next
  assume "cs \<noteq> []"
  then show "finalResults cs \<noteq> []"
    by (auto simp: finalResults_def filteredResults_def slice_take)
next
  have "subseq (take 3 cs) cs"
    by (metis append_take_drop_id subseq_rev_drop_many subseq_order.order_refl list_emb_append_mono
        list_emb_Nil)
  then show "subseq (finalResults cs) cs"
    by (simp add: finalResults_def filteredResults_def slice_take)
qed

theorem retrieval_filter_policy_witness:
  "cand (9 / 10) ''a'' \<in> set scenario_B \<and> score (cand (9 / 10) ''a'') \<ge> minScore \<and>
   finalResults scenario_B = [cand (9 / 10) ''a''] \<and>
   list_all (\<lambda>c. score c < minScore) scenario_C \<and>
   finalResults scenario_C = [cand (5 / 10) ''a'', cand (4 / 10) ''b'', cand (3 / 10) ''c''] \<and>
   scenario_C \<noteq> [] \<and> finalResults scenario_C \<noteq> []"
proof -
  have b: "\<exists>c \<in> set scenario_B. score c \<ge> minScore"
    by (simp add: scenario_B_def cand_def minScore_def)
  have c: "\<forall>c \<in> set scenario_C. score c < minScore"
    by (simp add: scenario_C_def cand_def minScore_def)
  have ne: "scenario_C \<noteq> []" by (simp add: scenario_C_def)
  from retrieval_filter_policy [of scenario_B] b
  have 1: "finalResults scenario_B = filter (\<lambda>c. score c \<ge> minScore) scenario_B" by blast
  from retrieval_filter_policy [of scenario_C] c ne
  have 2: "finalResults scenario_C = take 3 scenario_C" and 3: "finalResults scenario_C \<noteq> []"
    by blast+
  show ?thesis
    using c ne 3 unfolding 1 2
    by (simp add: scenario_B_def scenario_C_def cand_def minScore_def list_all_iff)
qed

lemma add_citation_keys:
  "map fst (add_citation m r) =
     (if url r \<in> set (map fst m) then map fst m else map fst m @ [url r])"
proof (cases "map_of m (url r)")
  case None
  then have "url r \<notin> set (map fst m)" by (simp add: map_of_eq_None_iff)
  with None show ?thesis by (simp add: add_citation_def Let_def update_keys)
next
  case (Some c)
  then have "(url r, c) \<in> set m" by (rule map_of_SomeD)
  then have "url r \<in> set (map fst m)" by force
  with Some show ?thesis by (simp add: add_citation_def Let_def update_keys)
qed

lemma add_citation_lookup:
  "map_of (add_citation m r) k =
     (if k = url r
      then (case map_of m k of
              None \<Rightarrow> Some \<lparr>title = title r, url = url r, score = score r\<rparr>
            | Some c \<Rightarrow>
                if score r > score c
                then Some \<lparr>title = title r, url = url r, score = score r\<rparr> else Some c)
      else map_of m k)"
  by (auto simp: add_citation_def Let_def update_conv' split: option.splits)

lemma citations_keys:
  "map fst (foldl add_citation [] rs) = rev (remdups (rev (map url rs)))"
proof (induction rs rule: rev_induct)
  case Nil
  show ?case by simp
next
  case (snoc r rs)
  have "set (map fst (foldl add_citation [] rs)) = set (map url rs)"
    unfolding snoc.IH by simp
  then show ?case
    using snoc.IH by (simp add: add_citation_keys)
qed

lemma citations_lookup:
  "map_of (foldl add_citation [] rs) k = Some c \<Longrightarrow>
     url c = k \<and>
     (\<exists>r \<in> set rs. url r = k \<and> c = \<lparr>title = title r, url = url r, score = score r\<rparr>) \<and>
     (\<forall>r \<in> set rs. url r = k \<longrightarrow> score r \<le> score c)"
proof (induction rs arbitrary: c rule: rev_induct)
  case Nil
  then show ?case by simp
next
  case (snoc r rs)
  show ?case
  proof (cases "k = url r")
    case False
    with snoc.prems have "map_of (foldl add_citation [] rs) k = Some c"
      by (simp add: add_citation_lookup)
    from snoc.IH [OF this] False show ?thesis by auto
  next
    case True
    show ?thesis
    proof (cases "map_of (foldl add_citation [] rs) k")
      case None
      then have "k \<notin> set (map fst (foldl add_citation [] rs))"
        by (simp add: map_of_eq_None_iff)
      then have new: "\<forall>r' \<in> set rs. url r' \<noteq> k"
        unfolding citations_keys by auto
      from snoc.prems True None
      have "c = \<lparr>title = title r, url = url r, score = score r\<rparr>"
        by (simp add: add_citation_lookup)
      with True new show ?thesis by auto
    next
      case (Some c')
      note IH = snoc.IH [OF Some]
      show ?thesis
      proof (cases "score r > score c'")
        case gt: True
        from snoc.prems True Some gt
        have "c = \<lparr>title = title r, url = url r, score = score r\<rparr>"
          by (simp add: add_citation_lookup)
        with True IH gt show ?thesis by fastforce
      next
        case le: False
        from snoc.prems True Some le have "c = c'"
          by (simp add: add_citation_lookup)
        with True IH le show ?thesis by fastforce
      qed
    qed
  qed
qed

text \<open>
  C5. The citations have exactly the urls of the candidates, each once, in the order of
  their first occurrence; every citation is the title, url and score of one of the
  candidates, and its score is the maximum of the scores of the candidates with its url;
  there are at most as many citations as candidates; and a candidate whose score is not
  strictly greater than that of the entry already held for its url leaves the map as it
  is.
\<close>

theorem citations_one_per_url_max_score:
  "map url (citations_of rs) = rev (remdups (rev (map url rs))) \<and>
   distinct (map url (citations_of rs)) \<and>
   set (map url (citations_of rs)) = set (map url rs) \<and>
   (\<forall>c \<in> set (citations_of rs).
      score c = Max (score ` {r \<in> set rs. url r = url c}) \<and>
      (\<exists>r \<in> set rs. c = \<lparr>title = title r, url = url r, score = score r\<rparr>)) \<and>
   length (citations_of rs) \<le> length rs \<and>
   (map_of m (url r) = Some c \<and> \<not> score r > score c \<longrightarrow> add_citation m r = m)"
proof -
  let ?m = "foldl add_citation [] rs"
  have keys: "map fst ?m = rev (remdups (rev (map url rs)))" by (rule citations_keys)
  then have dist: "distinct (map fst ?m)" by simp
  have entry: "url c = k \<and>
     (\<exists>r \<in> set rs. url r = k \<and> c = \<lparr>title = title r, url = url r, score = score r\<rparr>) \<and>
     (\<forall>r \<in> set rs. url r = k \<longrightarrow> score r \<le> score c)" if "(k, c) \<in> set ?m" for k c
    using that dist by (intro citations_lookup) simp
  have "map url (citations_of rs) = map (\<lambda>p. url (snd p)) ?m"
    by (simp add: citations_of_def)
  also have "\<dots> = map fst ?m"
    by (rule map_cong) (auto dest: entry)
  finally have urls: "map url (citations_of rs) = rev (remdups (rev (map url rs)))"
    using keys by simp
  have maxs: "score c = Max (score ` {r \<in> set rs. url r = url c})"
    if "c \<in> set (citations_of rs)" for c
  proof -
    from that obtain k where "(k, c) \<in> set ?m" by (auto simp: citations_of_def)
    from entry [OF this] obtain r where k: "url c = k" and r: "r \<in> set rs" "url r = k"
      "c = \<lparr>title = title r, url = url r, score = score r\<rparr>"
      and ub: "\<forall>r \<in> set rs. url r = k \<longrightarrow> score r \<le> score c"
      by blast
    from r(3) have sc: "score r = score c" by simp
    show ?thesis
    proof (rule sym, rule Max_eqI)
      show "finite (score ` {r \<in> set rs. url r = url c})" by simp
      show "y \<le> score c" if "y \<in> score ` {r \<in> set rs. url r = url c}" for y
        using that ub k by auto
      show "score c \<in> score ` {r \<in> set rs. url r = url c}"
        using r(1,2) sc k by force
    qed
  qed
  have "length (citations_of rs) = length (map url (citations_of rs))" by simp
  also have "\<dots> = length (remdups (rev (map url rs)))" unfolding urls by simp
  also have "\<dots> \<le> length (rev (map url rs))" by (rule length_remdups_leq)
  finally have len: "length (citations_of rs) \<le> length rs" by simp
  have from_cand: "\<exists>r \<in> set rs. c = \<lparr>title = title r, url = url r, score = score r\<rparr>"
    if "c \<in> set (citations_of rs)" for c
  proof -
    from that obtain k where "(k, c) \<in> set ?m" by (auto simp: citations_of_def)
    from entry [OF this] show ?thesis by blast
  qed
  have keep: "add_citation m r = m" if "map_of m (url r) = Some c \<and> \<not> score r > score c"
    using that by (simp add: add_citation_def Let_def)
  show ?thesis
    using urls maxs from_cand len keep by (simp del: set_map)
qed

theorem citations_one_per_url_max_score_witness:
  "citations_of repeated_source =
     [\<lparr>title = ''a'', url = ''a'', score = 9 / 10\<rparr>, \<lparr>title = ''b'', url = ''b'', score = 8 / 10\<rparr>] \<and>
   map url (citations_of repeated_source) = [''a'', ''b''] \<and>
   score \<lparr>title = ''a'', url = ''a'', score = 9 / 10\<rparr> =
     Max (score ` {r \<in> set repeated_source. url r = ''a''}) \<and>
   length (citations_of repeated_source) \<le> length repeated_source \<and>
   add_citation [(''a'', \<lparr>title = ''first'', url = ''a'', score = 9 / 10\<rparr>)] (cand (9 / 10) ''a'') =
     [(''a'', \<lparr>title = ''first'', url = ''a'', score = 9 / 10\<rparr>)]"
proof -
  let ?held = "\<lparr>title = ''first'', url = ''a'', score = 9 / 10 :: rat\<rparr>"
  note w = citations_one_per_url_max_score
    [where rs = repeated_source and m = "[(''a'', ?held)]" and r = "cand (9 / 10) ''a''" and
      c = ?held]
  have ev: "citations_of repeated_source =
     [\<lparr>title = ''a'', url = ''a'', score = 9 / 10\<rparr>, \<lparr>title = ''b'', url = ''b'', score = 8 / 10\<rparr>]"
    by (simp add: citations_of_def repeated_source_def add_citation_def cand_def Let_def)
  have "\<lparr>title = ''a'', url = ''a'', score = 9 / 10\<rparr> \<in> set (citations_of repeated_source)"
    unfolding ev by simp
  with w
  have "score \<lparr>title = ''a'', url = ''a'', score = 9 / 10\<rparr> =
     Max (score ` {r \<in> set repeated_source. url r = url \<lparr>title = ''a'', url = ''a'', score = 9 / 10 :: rat\<rparr>})"
    by blast
  moreover have "length (citations_of repeated_source) \<le> length repeated_source"
    using w by blast
  moreover have "map_of [(''a'', ?held)] (url (cand (9 / 10) ''a'')) = Some ?held \<and>
      \<not> score (cand (9 / 10) ''a'') > score ?held"
    by (simp add: cand_def)
  with w have "add_citation [(''a'', ?held)] (cand (9 / 10) ''a'') = [(''a'', ?held)]"
    by blast
  ultimately show ?thesis using ev by simp
qed

section \<open>Properties of the session store\<close>


lemma appendMessage_returned:
  assumes "appendMessage cfg io sid msg s = (Inr (), s')"
  shows "if has_redis cfg
         then redis s' (KEY sid) =
                Some ((case redis s (KEY sid) of None \<Rightarrow> [] | Some l \<Rightarrow> l) @
                      [Some (stamped msg (now io))])
         else mem s' (KEY sid) =
                Some ((case mem s (KEY sid) of None \<Rightarrow> [] | Some a \<Rightarrow> a) @
                      [stamped msg (now io)])"
proof (cases "has_redis cfg")
  case True
  from True assms have a: "connect_error io = None" "rPush_error io = None"
    "expire_error io = None"
    by (auto simp: appendMessage_def Let_def split: option.splits)
  from True a assms show ?thesis
    by (auto simp: appendMessage_def Let_def)
next
  case False
  with assms show ?thesis
    by (auto simp: appendMessage_def Let_def touchMem_def)
qed

lemma appendMessage_thrown:
  assumes "appendMessage cfg io sid msg s = (Inl e, s')"
  shows "has_redis cfg \<and>
         (s' = s \<or>
          s' = s\<lparr>redis := (redis s)(KEY sid \<mapsto>
                  (case redis s (KEY sid) of None \<Rightarrow> [] | Some l \<Rightarrow> l) @
                  [Some (stamped msg (now io))])\<rparr>)"
proof (cases "has_redis cfg")
  case False
  with assms show ?thesis by (simp add: appendMessage_def Let_def)
next
  case True
  show ?thesis
  proof (cases "connect_error io")
    case (Some c)
    with True assms show ?thesis by (simp add: appendMessage_def Let_def)
  next
    case None
    note conn = this
    show ?thesis
    proof (cases "rPush_error io")
      case (Some c)
      with True conn assms show ?thesis by (simp add: appendMessage_def Let_def)
    next
      case None
      with True conn assms show ?thesis
        by (cases "expire_error io") (auto simp: appendMessage_def Let_def)
    qed
  qed
qed








section \<open>Properties of the chat orchestrator\<close>

lemma session_log_appendMessage:
  "appendMessage cfg io sid msg s = (Inr (), s1) \<Longrightarrow>
     session_log cfg s1 sid = session_log cfg s sid @ [Some (stamped msg (now io))]"
  using appendMessage_returned [of cfg io sid msg s s1]
  by (cases "has_redis cfg") (simp_all add: session_log_def)

lemma session_log_appendMessage_failed:
  "appendMessage cfg io sid msg s = (Inl e, s1) \<Longrightarrow>
     session_log cfg s1 sid = session_log cfg s sid \<or>
     session_log cfg s1 sid = session_log cfg s sid @ [Some (stamped msg (now io))]"
  using appendMessage_thrown [of cfg io sid msg s e s1]
  by (auto simp: session_log_def)

lemma appendMessage_mem:
  "\<not> has_redis cfg \<Longrightarrow> \<exists>s1. appendMessage cfg io sid msg s = (Inr (), s1)"
  by (simp add: appendMessage_def Let_def)

lemmas chat_eval =
  handleChat_def chat_reply_def getHistory_def env_ok_def cfg_redis_def cfg_mem_def
  empty_store_def no_fault_def ok_append_def answerWithContext_def histText_def slice_def
  retryWithBackoff_def retry_with_def retry_loop_success appendMessage_def session_log_def
  stamped_def turn_msg_def touchMem_def Let_def finalResults_def filteredResults_def
  scenario_B_def cand_def minScore_def citations_of_def add_citation_def

text \<open>
  C3, as stated, fails on the Redis backend: when the \<open>rPush\<close> of the second append
  throws, the request fails and the user turn written by the first append stays in the
  session log.
\<close>

theorem partial_write_counterexample:
  "fst (handleChat cfg_redis env_second_append_fails ''s1'' ''hi'' empty_store) = Inl failed \<and>
   session_log cfg_redis empty_store ''s1'' = [] \<and>
   session_log cfg_redis
     (snd (handleChat cfg_redis env_second_append_fails ''s1'' ''hi'' empty_store)) ''s1'' =
     [Some (JObj [(''message'', JStr ''hi''), (''role'', JStr ''user''), (''ts'', JNum 1000)])]"
  by (simp add: chat_eval env_second_append_fails_def)

lemma handleChat_returned:
  assumes "handleChat cfg env sid m s = (Inr (reply, cits), s')"
  shows "chat_reply cfg env sid m s = Inr (reply, cits) \<and>
         (\<exists>s1. appendMessage cfg (user_io env) sid (turn_msg m ''user'') s = (Inr (), s1) \<and>
               appendMessage cfg (assistant_io env) sid (turn_msg reply ''assistant'') s1 =
                 (Inr (), s'))"
  using assms
  by (auto simp: handleChat_def split: sum.splits prod.splits)

lemma handleChat_log_cases:
  assumes "chat_reply cfg env sid m s = Inr (reply, cits)"
  shows "session_log cfg (snd (handleChat cfg env sid m s)) sid \<in>
           {session_log cfg s sid,
            session_log cfg s sid @ [Some (stamped (turn_msg m ''user'') (now (user_io env)))],
            session_log cfg s sid @
              [Some (stamped (turn_msg m ''user'') (now (user_io env))),
               Some (stamped (turn_msg reply ''assistant'') (now (assistant_io env)))]}"
proof -
  obtain r1 s1 where a1: "appendMessage cfg (user_io env) sid (turn_msg m ''user'') s = (r1, s1)"
    by (cases "appendMessage cfg (user_io env) sid (turn_msg m ''user'') s")
  show ?thesis
  proof (cases r1)
    case (Inl e)
    with assms a1 have "snd (handleChat cfg env sid m s) = s1"
      by (simp add: handleChat_def)
    with session_log_appendMessage_failed [of cfg "user_io env" sid "turn_msg m ''user''" s e s1]
      a1 Inl show ?thesis by auto
  next
    case (Inr u)
    with a1 have l1: "session_log cfg s1 sid =
        session_log cfg s sid @ [Some (stamped (turn_msg m ''user'') (now (user_io env)))]"
      by (intro session_log_appendMessage) simp
    obtain r2 s2 where a2:
      "appendMessage cfg (assistant_io env) sid (turn_msg reply ''assistant'') s1 = (r2, s2)"
      by (cases "appendMessage cfg (assistant_io env) sid (turn_msg reply ''assistant'') s1")
    from assms a1 Inr a2 have s2: "snd (handleChat cfg env sid m s) = s2"
      by (cases r2) (simp_all add: handleChat_def)
    show ?thesis
    proof (cases r2)
      case (Inl e)
      with session_log_appendMessage_failed
        [of cfg "assistant_io env" sid "turn_msg reply ''assistant''" s1 e s2] a2 l1 s2
      show ?thesis by auto
    next
      case (Inr u')
      with a2 have "session_log cfg s2 sid =
          session_log cfg s1 sid @
            [Some (stamped (turn_msg reply ''assistant'') (now (assistant_io env)))]"
        by (intro session_log_appendMessage) simp
      with l1 s2 show ?thesis by simp
    qed
  qed
qed

text \<open>
  C3, amended. A request that fails at any step up to and including generation leaves
  the whole store as it was. A request that succeeds appends the user turn and then the
  assistant turn to the session log, and nothing else. On the in-memory backend a request
  that fails never changes the store. On the Redis backend a failure inside the two
  appends is not rolled back: the log then is the old log, or the old log followed by the
  user turn, or the old log followed by both turns.
\<close>

theorem turns_written_after_generation:
  "(chat_reply cfg env sid m s = Inl e \<longrightarrow> handleChat cfg env sid m s = (Inl failed, s)) \<and>
   (handleChat cfg env sid m s = (Inr (reply, cits), s') \<longrightarrow>
      chat_reply cfg env sid m s = Inr (reply, cits) \<and>
      session_log cfg s' sid =
        session_log cfg s sid @
          [Some (stamped (turn_msg m ''user'') (now (user_io env))),
           Some (stamped (turn_msg reply ''assistant'') (now (assistant_io env)))]) \<and>
   (\<not> has_redis cfg \<and> fst (handleChat cfg env sid m s) = Inl e' \<longrightarrow>
      snd (handleChat cfg env sid m s) = s) \<and>
   (chat_reply cfg env sid m s = Inr (reply, cits) \<longrightarrow>
      session_log cfg (snd (handleChat cfg env sid m s)) sid \<in>
        {session_log cfg s sid,
         session_log cfg s sid @ [Some (stamped (turn_msg m ''user'') (now (user_io env)))],
         session_log cfg s sid @
           [Some (stamped (turn_msg m ''user'') (now (user_io env))),
            Some (stamped (turn_msg reply ''assistant'') (now (assistant_io env)))]})"
proof (intro conjI impI)
  assume "chat_reply cfg env sid m s = Inl e"
  then show "handleChat cfg env sid m s = (Inl failed, s)"
    by (simp add: handleChat_def)
next
  assume h: "handleChat cfg env sid m s = (Inr (reply, cits), s')"
  from handleChat_returned [OF h] show "chat_reply cfg env sid m s = Inr (reply, cits)"
    by simp
  from handleChat_returned [OF h] obtain s1 where
    a1: "appendMessage cfg (user_io env) sid (turn_msg m ''user'') s = (Inr (), s1)" and
    a2: "appendMessage cfg (assistant_io env) sid (turn_msg reply ''assistant'') s1 = (Inr (), s')"
    by blast
  show "session_log cfg s' sid =
        session_log cfg s sid @
          [Some (stamped (turn_msg m ''user'') (now (user_io env))),
           Some (stamped (turn_msg reply ''assistant'') (now (assistant_io env)))]"
    using session_log_appendMessage [OF a1] session_log_appendMessage [OF a2] by simp
next
  assume a: "\<not> has_redis cfg \<and> fst (handleChat cfg env sid m s) = Inl e'"
  show "snd (handleChat cfg env sid m s) = s"
  proof (cases "chat_reply cfg env sid m s")
    case (Inl x)
    then show ?thesis by (simp add: handleChat_def)
  next
    case (Inr p)
    obtain r c where p: "p = (r, c)" by (cases p)
    from a obtain s1 where
      a1: "appendMessage cfg (user_io env) sid (turn_msg m ''user'') s = (Inr (), s1)"
      using appendMessage_mem by blast
    from a obtain s2 where
      a2: "appendMessage cfg (assistant_io env) sid (turn_msg r ''assistant'') s1 = (Inr (), s2)"
      using appendMessage_mem by blast
    from Inr p a1 a2 have "fst (handleChat cfg env sid m s) = Inr (r, c)"
      by (simp add: handleChat_def)
    with a show ?thesis by simp
  qed
next
  assume "chat_reply cfg env sid m s = Inr (reply, cits)"
  then show "session_log cfg (snd (handleChat cfg env sid m s)) sid \<in>
        {session_log cfg s sid,
         session_log cfg s sid @ [Some (stamped (turn_msg m ''user'') (now (user_io env)))],
         session_log cfg s sid @
           [Some (stamped (turn_msg m ''user'') (now (user_io env))),
            Some (stamped (turn_msg reply ''assistant'') (now (assistant_io env)))]}"
    by (rule handleChat_log_cases)
qed

theorem turns_written_after_generation_witness:
  "chat_reply cfg_redis env_no_embedding ''s1'' ''hi'' empty_store = Inl unauthorized \<and>
   handleChat cfg_redis env_no_embedding ''s1'' ''hi'' empty_store = (Inl failed, empty_store) \<and>
   fst (handleChat cfg_redis env_ok ''s1'' ''hi'' empty_store) =
     Inr (''I am unsure.'', [\<lparr>title = ''a'', url = ''a'', score = 9 / 10\<rparr>]) \<and>
   session_log cfg_redis (snd (handleChat cfg_redis env_ok ''s1'' ''hi'' empty_store)) ''s1'' =
     [Some (JObj [(''message'', JStr ''hi''), (''role'', JStr ''user''), (''ts'', JNum 1000)]),
      Some (JObj [(''message'', JStr ''I am unsure.''), (''role'', JStr ''assistant''),
                  (''ts'', JNum 1001)])] \<and>
   \<not> has_redis cfg_mem \<and>
   fst (handleChat cfg_mem env_no_embedding ''s1'' ''hi'' empty_store) = Inl failed \<and>
   snd (handleChat cfg_mem env_no_embedding ''s1'' ''hi'' empty_store) = empty_store \<and>
   session_log cfg_redis
     (snd (handleChat cfg_redis env_second_append_fails ''s1'' ''hi'' empty_store)) ''s1'' \<in>
     {[], [Some (JObj [(''message'', JStr ''hi''), (''role'', JStr ''user''), (''ts'', JNum 1000)])],
      [Some (JObj [(''message'', JStr ''hi''), (''role'', JStr ''user''), (''ts'', JNum 1000)]),
       Some (JObj [(''message'', JStr ''I am unsure.''), (''role'', JStr ''assistant''),
                   (''ts'', JNum 1001)])]}"
proof -
  let ?c = "[\<lparr>title = ''a'', url = ''a'', score = 9 / 10 :: rat\<rparr>]"
  let ?ok = "handleChat cfg_redis env_ok ''s1'' ''hi'' empty_store"
  have r1: "chat_reply cfg_redis env_no_embedding ''s1'' ''hi'' empty_store = Inl unauthorized"
    by (simp add: chat_eval env_no_embedding_def)
  have f2: "fst ?ok = Inr (''I am unsure.'', ?c)"
    by (simp add: chat_eval)
  then have h2: "?ok = (Inr (''I am unsure.'', ?c), snd ?ok)"
    by (simp add: prod_eq_iff)
  have m3: "\<not> has_redis cfg_mem" by (simp add: cfg_mem_def)
  have f3: "fst (handleChat cfg_mem env_no_embedding ''s1'' ''hi'' empty_store) = Inl failed"
    by (simp add: chat_eval env_no_embedding_def)
  have r4: "chat_reply cfg_redis env_second_append_fails ''s1'' ''hi'' empty_store =
      Inr (''I am unsure.'', ?c)"
    by (simp add: chat_eval env_second_append_fails_def)
  have e: "session_log cfg_redis empty_store ''s1'' = []"
    by (simp add: session_log_def empty_store_def cfg_redis_def)
  have io: "now (user_io env_ok) = 1000" "now (assistant_io env_ok) = 1001"
    "now (user_io env_second_append_fails) = 1000"
    "now (assistant_io env_second_append_fails) = 1001"
    by (simp_all add: env_ok_def env_second_append_fails_def ok_append_def)
  have st: "stamped (turn_msg ''hi'' ''user'') 1000 =
      JObj [(''message'', JStr ''hi''), (''role'', JStr ''user''), (''ts'', JNum 1000)]"
    "stamped (turn_msg ''I am unsure.'' ''assistant'') 1001 =
      JObj [(''message'', JStr ''I am unsure.''), (''role'', JStr ''assistant''),
            (''ts'', JNum 1001)]"
    by (simp_all add: stamped_def turn_msg_def)
  from turns_written_after_generation
    [of cfg_redis env_no_embedding "''s1''" "''hi''" empty_store unauthorized] r1
  have 1: "handleChat cfg_redis env_no_embedding ''s1'' ''hi'' empty_store =
      (Inl failed, empty_store)"
    by blast
  from turns_written_after_generation
    [of cfg_redis env_ok "''s1''" "''hi''" empty_store _ "''I am unsure.''" ?c "snd ?ok"] h2
  have 2: "session_log cfg_redis (snd ?ok) ''s1'' =
      session_log cfg_redis empty_store ''s1'' @
        [Some (stamped (turn_msg ''hi'' ''user'') (now (user_io env_ok))),
         Some (stamped (turn_msg ''I am unsure.'' ''assistant'') (now (assistant_io env_ok)))]"
    by blast
  from turns_written_after_generation
    [of cfg_mem env_no_embedding "''s1''" "''hi''" empty_store _ _ _ _ failed] m3 f3
  have 3: "snd (handleChat cfg_mem env_no_embedding ''s1'' ''hi'' empty_store) = empty_store"
    by blast
  from turns_written_after_generation
    [of cfg_redis env_second_append_fails "''s1''" "''hi''" empty_store _ "''I am unsure.''" ?c]
    r4
  have 4: "session_log cfg_redis
      (snd (handleChat cfg_redis env_second_append_fails ''s1'' ''hi'' empty_store)) ''s1'' \<in>
        {session_log cfg_redis empty_store ''s1'',
         session_log cfg_redis empty_store ''s1'' @
           [Some (stamped (turn_msg ''hi'' ''user'') (now (user_io env_second_append_fails)))],
         session_log cfg_redis empty_store ''s1'' @
           [Some (stamped (turn_msg ''hi'' ''user'') (now (user_io env_second_append_fails))),
            Some (stamped (turn_msg ''I am unsure.'' ''assistant'')
                    (now (assistant_io env_second_append_fails)))]}"
    by blast
  show ?thesis
    using r1 1 f2 2 m3 f3 3 4 unfolding e io st by simp
qed

section \<open>Properties of the prompt\<close>

lemma render_stored_turn:
  "render_turn (stamped (turn_msg m r) t) = Inr (toUpperCase r @ '': undefined'')"
  by (simp add: render_turn_def get_prop_def stamped_def turn_msg_def display_def)

lemma map_result_all:
  "(\<And>x. f (h x) = Inr (g x)) \<Longrightarrow> map_result f (map h xs) = Inr (map g xs)"
  by (induction xs) simp_all

lemma slice_map: "slice (map f xs) a b = map f (slice xs a b)"
  by (simp add: slice_def Let_def take_map drop_map)

lemma histText_stored_turns:
  "histText (map (\<lambda>(m, r, t). stamped (turn_msg m r) t) turns) =
     Inr (join nl (map (\<lambda>(m, r, t). toUpperCase r @ '': undefined'')
                     (slice turns (- 6) (int (length turns)))))"
proof -
  let ?f = "\<lambda>(m, r, t). stamped (turn_msg m r) t"
  let ?g = "\<lambda>(m, r, t). toUpperCase r @ '': undefined''"
  have "map_result render_turn (map ?f (slice turns (- 6) (int (length turns)))) =
          Inr (map ?g (slice turns (- 6) (int (length turns))))"
    by (rule map_result_all) (auto simp: render_stored_turn)
  then show ?thesis
    by (simp add: histText_def slice_map [symmetric])
qed

lemma toUpperCase_user: "toUpperCase ''user'' = ''USER''"
  by (simp add: toUpperCase_def ascii_upper_def Let_def)

lemma toUpperCase_assistant: "toUpperCase ''assistant'' = ''ASSISTANT''"
  by (simp add: toUpperCase_def ascii_upper_def Let_def)

text \<open>
  C9, as stated, fails: a stored message text can coincide with what the prompt builder
  prints for the missing \<open>content\<close> property. After the user turn \<open>undefined\<close> is
  appended, the history section is \<open>USER: undefined\<close>, in which that text occurs.
\<close>

theorem message_text_in_history_counterexample:
  "getHistory cfg_mem no_fault ''s1''
     (snd (appendMessage cfg_mem (ok_append 1000) ''s1'' (turn_msg ''undefined'' ''user'')
             empty_store)) =
     Inr [JObj [(''message'', JStr ''undefined''), (''role'', JStr ''user''), (''ts'', JNum 1000)]] \<and>
   histText [JObj [(''message'', JStr ''undefined''), (''role'', JStr ''user''),
                   (''ts'', JNum 1000)]] = Inr ''USER: undefined'' \<and>
   sublist ''undefined'' ''USER: undefined''"
proof (intro conjI)
  show "getHistory cfg_mem no_fault ''s1''
     (snd (appendMessage cfg_mem (ok_append 1000) ''s1'' (turn_msg ''undefined'' ''user'')
             empty_store)) =
     Inr [JObj [(''message'', JStr ''undefined''), (''role'', JStr ''user''), (''ts'', JNum 1000)]]"
    by (simp add: getHistory_def appendMessage_def cfg_mem_def ok_append_def empty_store_def
        touchMem_def stamped_def turn_msg_def Let_def)
  have "histText (map (\<lambda>(m, r, t). stamped (turn_msg m r) t) [(''undefined'', ''user'', 1000)]) =
          Inr ''USER: undefined''"
    unfolding histText_stored_turns by (simp add: slice_def toUpperCase_user)
  then show "histText [JObj [(''message'', JStr ''undefined''), (''role'', JStr ''user''),
                   (''ts'', JNum 1000)]] = Inr ''USER: undefined''"
    by (simp add: stamped_def turn_msg_def)
  have "''USER: undefined'' = ''USER: '' @ ''undefined'' @ []" by simp
  then show "sublist ''undefined'' ''USER: undefined''"
    unfolding sublist_def by blast
qed

text \<open>
  C9, amended. Session turns are stored under the property \<open>message\<close> and the prompt
  builder reads the property \<open>content\<close>, which a stored turn does not have. So for
  every history of stored turns, each line of the CHAT HISTORY section is the upper-cased
  role of one of the last six turns followed by \<open>: undefined\<close>: the section is
  built from the roles alone, and two histories with the same roles give the same section
  whatever their message texts and time stamps are.
\<close>

theorem history_section_from_roles_only:
  "histText (map (\<lambda>(m, r, t). stamped (turn_msg m r) t) turns) =
     Inr (join nl (map (\<lambda>(m, r, t). toUpperCase r @ '': undefined'')
                     (slice turns (- 6) (int (length turns))))) \<and>
   (map (\<lambda>(m, r, t). r) turns = map (\<lambda>(m, r, t). r) turns' \<longrightarrow>
      histText (map (\<lambda>(m, r, t). stamped (turn_msg m r) t) turns) =
      histText (map (\<lambda>(m, r, t). stamped (turn_msg m r) t) turns'))"
proof (intro conjI impI)
  show "histText (map (\<lambda>(m, r, t). stamped (turn_msg m r) t) turns) =
     Inr (join nl (map (\<lambda>(m, r, t). toUpperCase r @ '': undefined'')
                     (slice turns (- 6) (int (length turns)))))"
    by (rule histText_stored_turns)
next
  assume roles: "map (\<lambda>(m, r, t). r) turns = map (\<lambda>(m, r, t). r) turns'"
  let ?role = "\<lambda>(m :: string, r :: string, t :: nat). r"
  have g: "(\<lambda>(m :: string, r, t :: nat). toUpperCase r @ '': undefined'') =
           (\<lambda>r. toUpperCase r @ '': undefined'') \<circ> ?role"
    by (auto simp: fun_eq_iff)
  from roles have len: "length turns = length turns'"
    by (rule map_eq_imp_length_eq)
  have "map ?role (slice turns (- 6) (int (length turns))) =
        map ?role (slice turns' (- 6) (int (length turns')))"
    unfolding slice_map [symmetric] roles len ..
  then have "map (\<lambda>(m, r, t). toUpperCase r @ '': undefined'')
               (slice turns (- 6) (int (length turns))) =
             map (\<lambda>(m, r, t). toUpperCase r @ '': undefined'')
               (slice turns' (- 6) (int (length turns')))"
    unfolding g map_map [symmetric] by simp
  then show "histText (map (\<lambda>(m, r, t). stamped (turn_msg m r) t) turns) =
      histText (map (\<lambda>(m, r, t). stamped (turn_msg m r) t) turns')"
    unfolding histText_stored_turns by simp
qed

theorem history_section_from_roles_only_witness:
  "map (\<lambda>(m, r, t). r) [(''hi'', ''user'', 1000 :: nat), (''hello'', ''assistant'', 1001)] =
   map (\<lambda>(m, r, t). r) [(''bye'', ''user'', 2000 :: nat), (''see you'', ''assistant'', 2001)] \<and>
   histText [JObj [(''message'', JStr ''hi''), (''role'', JStr ''user''), (''ts'', JNum 1000)],
             JObj [(''message'', JStr ''hello''), (''role'', JStr ''assistant''),
                   (''ts'', JNum 1001)]] =
     Inr (''USER: undefined'' @ nl @ ''ASSISTANT: undefined'') \<and>
   histText [JObj [(''message'', JStr ''bye''), (''role'', JStr ''user''), (''ts'', JNum 2000)],
             JObj [(''message'', JStr ''see you''), (''role'', JStr ''assistant''),
                   (''ts'', JNum 2001)]] =
     Inr (''USER: undefined'' @ nl @ ''ASSISTANT: undefined'')"
proof -
  let ?a = "[(''hi'', ''user'', 1000 :: nat), (''hello'', ''assistant'', 1001)]"
  let ?b = "[(''bye'', ''user'', 2000 :: nat), (''see you'', ''assistant'', 2001)]"
  have roles: "map (\<lambda>(m, r, t). r) ?a = map (\<lambda>(m, r, t). r) ?b" by simp
  note w = history_section_from_roles_only [of ?a ?b]
  from w have 1: "histText (map (\<lambda>(m, r, t). stamped (turn_msg m r) t) ?a) =
      Inr (join nl (map (\<lambda>(m, r, t). toUpperCase r @ '': undefined'')
                      (slice ?a (- 6) (int (length ?a)))))"
    by blast
  from w roles have 2: "histText (map (\<lambda>(m, r, t). stamped (turn_msg m r) t) ?a) =
      histText (map (\<lambda>(m, r, t). stamped (turn_msg m r) t) ?b)"
    by blast
  have 3: "join nl (map (\<lambda>(m, r, t). toUpperCase r @ '': undefined'')
                      (slice ?a (- 6) (int (length ?a)))) =
           ''USER: undefined'' @ nl @ ''ASSISTANT: undefined''"
    by (simp add: slice_def toUpperCase_user toUpperCase_assistant)
  show ?thesis
    using roles 1 2 unfolding 3 by (simp add: stamped_def turn_msg_def)
qed

section \<open>Properties of the ingestion loop\<close>

lemma ingest_loop_foldl: "ingest_loop env urls i st = foldl (ingest_step env) st (drop i urls)"
proof (induction env urls i st rule: ingest_loop.induct)
  case (1 env urls i st)
  show ?case
  proof (cases "i < length urls")
    case True
    then have "drop i urls = urls ! i # drop (Suc i) urls"
      by (simp add: Cons_nth_drop_Suc)
    with True "1.IH" show ?thesis
      by (subst ingest_loop.simps) simp
  next
    case False
    then show ?thesis by (subst ingest_loop.simps) simp
  qed
qed

lemma processed_ingest_step:
  "processed (ingest_step env st u) = processed st + (if is_ingested env u then 1 else 0)"
  by (simp add: ingest_step_def is_ingested_def split: sum.splits url_result.splits)

lemma warned_ingest_step:
  "map fst (warned (ingest_step env st u)) =
     map fst (warned st) @ (if has_failed env u then [u] else [])"
  by (simp add: ingest_step_def has_failed_def split: sum.splits url_result.splits)

lemma jsonl_ingest_step:
  "jsonl (ingest_step env st u) = jsonl st @ written_for env u"
  by (simp add: ingest_step_def written_for_def split: sum.splits url_result.splits)

lemma processed_foldl:
  "processed (foldl (ingest_step env) st us) = processed st + length (filter (is_ingested env) us)"
  by (induction us arbitrary: st) (simp_all add: processed_ingest_step)

lemma warned_foldl:
  "map fst (warned (foldl (ingest_step env) st us)) =
     map fst (warned st) @ filter (has_failed env) us"
  by (induction us arbitrary: st) (simp_all add: warned_ingest_step)

lemma jsonl_foldl:
  "jsonl (foldl (ingest_step env) st us) = jsonl st @ concat (map (written_for env) us)"
  by (induction us arbitrary: st) (simp_all add: jsonl_ingest_step)

lemma embed_groups_succeed:
  "(\<And>g grp. \<exists>v. call g grp = Inr v) \<Longrightarrow>
     \<exists>vectors. embed_groups call groups g acc = Inr vectors"
proof (induction groups arbitrary: g acc)
  case Nil
  show ?case by simp
next
  case (Cons grp rest)
  from Cons.prems obtain v where v: "call g grp = Inr v" by blast
  from Cons.IH [OF Cons.prems, of "Suc g" "acc @ v"] v show ?case by simp
qed

lemma ingest_url_succeeds:
  assumes "scrape env u = Inr doc" and "500 \<le> length (page_text doc)"
    and "\<And>g grp. \<exists>v. embedMany env u g grp = Inr v"
    and "\<And>points. upsertPoints env u points = None"
  shows "is_ingested env u"
proof -
  from embed_groups_succeed [of "embedMany env u", OF assms(3)]
  obtain vectors where
    "embed_groups (embedMany env u) (chunkArray (chunkText (page_text doc)) 4) 0 [] = Inr vectors"
    by blast
  with assms(1,2,4) show ?thesis
    by (auto simp: is_ingested_def ingest_url_def Let_def)
qed

text \<open>
  C8. For every list of URLs and whatever the collaborators do: the loop visits every
  URL, an error thrown for one URL is caught (the URL is recorded by the warning and the
  loop goes on), so that the lines written to the JSONL file are those of every URL whose
  processing completes, in order; a URL whose extracted text is shorter than 500
  characters is skipped, which is neither an error nor counted; and the report is the
  number of URLs ingested out of the number of URLs.
\<close>

theorem ingest_loop_tolerates_failures:
  "ingest_report env urls = (length (filter (is_ingested env) urls), length urls) \<and>
   map fst (warned (ingest_loop env urls 0 ingest_start)) = filter (has_failed env) urls \<and>
   jsonl (ingest_loop env urls 0 ingest_start) = concat (map (written_for env) urls) \<and>
   (scrape env u = Inr doc \<and> length (page_text doc) < 500 \<longrightarrow>
      ingest_url env u = Inr Skipped \<and> \<not> is_ingested env u \<and> \<not> has_failed env u)"
proof (intro conjI impI)
  show "ingest_report env urls = (length (filter (is_ingested env) urls), length urls)"
    by (simp add: ingest_report_def ingest_loop_foldl processed_foldl ingest_start_def)
  show "map fst (warned (ingest_loop env urls 0 ingest_start)) = filter (has_failed env) urls"
    by (simp add: ingest_loop_foldl warned_foldl ingest_start_def)
  show "jsonl (ingest_loop env urls 0 ingest_start) = concat (map (written_for env) urls)"
    by (simp add: ingest_loop_foldl jsonl_foldl ingest_start_def)
next
  assume a: "scrape env u = Inr doc \<and> length (page_text doc) < 500"
  then show s: "ingest_url env u = Inr Skipped"
    by (simp add: ingest_url_def)
  from s show "\<not> is_ingested env u" by (simp add: is_ingested_def)
  from s show "\<not> has_failed env u" by (simp add: has_failed_def)
qed

lemma demo_gone: "ingest_url demo_env ''https://example.org/gone'' = Inl not_found"
  by (simp add: ingest_url_def demo_env_def)

lemma demo_long: "is_ingested demo_env ''https://example.org/long''"
  by (rule ingest_url_succeeds [where doc = "\<lparr>page_url = ''https://example.org/long'',
        page_title = ''Long'', page_text = replicate 600 0x61\<rparr>"])
     (simp_all add: demo_env_def)

theorem ingest_loop_tolerates_failures_witness:
  "scrape demo_env ''https://example.org/short'' =
     Inr \<lparr>page_url = ''https://example.org/short'', page_title = ''Short'',
          page_text = replicate 120 0x61\<rparr> \<and>
   ingest_url demo_env ''https://example.org/short'' = Inr Skipped \<and>
   ingest_url demo_env ''https://example.org/gone'' = Inl not_found \<and>
   is_ingested demo_env ''https://example.org/long'' \<and>
   ingest_report demo_env demo_urls = (1, 3) \<and>
   map fst (warned (ingest_loop demo_env demo_urls 0 ingest_start)) =
     [''https://example.org/gone'']"
proof -
  let ?short = "\<lparr>page_url = ''https://example.org/short'', page_title = ''Short'',
                  page_text = replicate 120 (0x61 :: 16 word)\<rparr>"
  note w = ingest_loop_tolerates_failures
    [of demo_env demo_urls "''https://example.org/short''" ?short]
  have sc: "scrape demo_env ''https://example.org/short'' = Inr ?short"
    by (simp add: demo_env_def)
  have len: "length (page_text ?short) < 500" by simp
  from w sc len have short: "ingest_url demo_env ''https://example.org/short'' = Inr Skipped"
    "\<not> is_ingested demo_env ''https://example.org/short''"
    "\<not> has_failed demo_env ''https://example.org/short''"
    by blast+
  have gone: "\<not> is_ingested demo_env ''https://example.org/gone''"
    "has_failed demo_env ''https://example.org/gone''"
    by (simp_all add: is_ingested_def has_failed_def demo_gone)
  have long: "\<not> has_failed demo_env ''https://example.org/long''"
    using demo_long by (auto simp: is_ingested_def has_failed_def split: sum.splits)
  from w have "ingest_report demo_env demo_urls =
      (length (filter (is_ingested demo_env) demo_urls), length demo_urls)"
    by blast
  then have rep: "ingest_report demo_env demo_urls = (1, 3)"
    using short gone demo_long by (simp add: demo_urls_def)
  from w have "map fst (warned (ingest_loop demo_env demo_urls 0 ingest_start)) =
      filter (has_failed demo_env) demo_urls"
    by blast
  then have wr: "map fst (warned (ingest_loop demo_env demo_urls 0 ingest_start)) =
      [''https://example.org/gone'']"
    using short gone long by (simp add: demo_urls_def)
  show ?thesis
    using sc short(1) demo_gone demo_long rep wr by simp
qed

end
